theory Spec2Isabelle
  imports Main "HOL-Library.Sublist"
begin

section \<open>JavaScript strings\<close>

text \<open>
  A JavaScript string is a sequence of UTF-16 code units. A code unit is modelled as a
  natural number (every code unit of a real string is below 65536), a string as the list
  of its code units, so that \<open>length\<close> is the \<^verbatim>\<open>.length\<close> of the source.
  \<open>js\<close> turns an ASCII literal of the source into its code units.
\<close>

type_synonym code_unit = nat
type_synonym js_string = "code_unit list"

definition js :: "string \<Rightarrow> js_string" where
  "js s = map of_char s"

text \<open>
  The white space of \<^verbatim>\<open>String.prototype.trim\<close> and of the regular expression class
  \<^verbatim>\<open>\s\<close> (ECMAScript WhiteSpace and LineTerminator): TAB, LF, VT, FF, CR, SP, NBSP,
  U+1680, U+2000 to U+200A, U+2028, U+2029, U+202F, U+205F, U+3000 and U+FEFF.
\<close>

definition isWhiteSpace :: "code_unit \<Rightarrow> bool" where
  "isWhiteSpace c =
     (c = 9 \<or> c = 10 \<or> c = 11 \<or> c = 12 \<or> c = 13 \<or> c = 32 \<or> c = 160 \<or> c = 5760 \<or>
      (8192 \<le> c \<and> c \<le> 8202) \<or> c = 8232 \<or> c = 8233 \<or> c = 8239 \<or> c = 8287 \<or>
      c = 12288 \<or> c = 65279)"

definition trim :: "js_string \<Rightarrow> js_string" where
  "trim s = rev (dropWhile isWhiteSpace (rev (dropWhile isWhiteSpace s)))"

definition startsWith :: "js_string \<Rightarrow> js_string \<Rightarrow> bool" where
  "startsWith s p = (take (length p) s = p)"

text \<open>\<^verbatim>\<open>Array.prototype.join\<close>.\<close>

fun join_with :: "js_string \<Rightarrow> js_string list \<Rightarrow> js_string" where
  "join_with sep [] = []"
| "join_with sep [x] = x"
| "join_with sep (x # y # ys) = x @ sep @ join_with sep (y # ys)"

text \<open>
  \<^verbatim>\<open>String.prototype.split\<close> at a one-unit separator, scanning from the left with
  the segment read so far: never the empty list.
\<close>

fun split_from :: "code_unit \<Rightarrow> js_string \<Rightarrow> js_string \<Rightarrow> js_string list" where
  "split_from d seg [] = [seg]"
| "split_from d seg (c # cs) =
     (if c = d then seg # split_from d [] cs else split_from d (seg @ [c]) cs)"

definition split_on :: "code_unit \<Rightarrow> js_string \<Rightarrow> js_string list" where
  "split_on d s = split_from d [] s"

text \<open>The decimal rendering of a number in a template literal.\<close>

fun show_nat :: "nat \<Rightarrow> js_string" where
  "show_nat n = (if n < 10 then [48 + n] else show_nat (n div 10) @ [48 + n mod 10])"

declare show_nat.simps [simp del]

definition show_int :: "int \<Rightarrow> js_string" where
  "show_int i = (if i < 0 then 45 # show_nat (nat (- i)) else show_nat (nat i))"

text \<open>
  A substring test (\<^verbatim>\<open>String.prototype.includes\<close>), used to state what a message
  contains.
\<close>

fun js_includes :: "js_string \<Rightarrow> js_string \<Rightarrow> bool" where
  "js_includes [] p = (p = [])"
| "js_includes (c # cs) p = (startsWith (c # cs) p \<or> js_includes cs p)"

section \<open>Errors\<close>

text \<open>
  What a function throws, or a promise is rejected with. Every error the sources throw
  themselves is a plain \<^verbatim>\<open>Error\<close> with a message. The rejected promise of a
  collaborator may carry an error of another name (\<^verbatim>\<open>AbortError\<close>), and JavaScript
  lets it carry a value that is no error at all: \<^verbatim>\<open>null\<close>, \<^verbatim>\<open>undefined\<close>, or any
  other value that has no \<^verbatim>\<open>message\<close> (a string, a number), kept here by the text it
  is written as. A function that can throw returns \<open>js_error + 'a\<close>, what is thrown on
  the left.
\<close>

datatype js_error =
    JsError (err_name: js_string) (err_message: js_string)
  | ThrownNull
  | ThrownUndefined
  | ThrownValue js_string

definition Error :: "js_string \<Rightarrow> js_error" where
  "Error m = JsError (js ''Error'') m"

definition TypeError :: "js_string \<Rightarrow> js_error" where
  "TypeError m = JsError (js ''TypeError'') m"

definition AccessViolation :: js_error where
  "AccessViolation = Error (js ''Access outside of repository root is not allowed.'')"

definition UnparsableResponse :: js_error where
  "UnparsableResponse = Error (js ''Unable to parse LLM response into ReAct action.'')"

definition UnknownTool :: "js_string \<Rightarrow> js_error" where
  "UnknownTool toolName = Error (js ''LLM referenced unknown tool: '' @ toolName)"

section \<open>The host process and the execution context\<close>

text \<open>
  \<open>host\<close> is what the sources read from the hosting Node.js process:
  \<^verbatim>\<open>process.cwd()\<close> (always an absolute path), \<^verbatim>\<open>process.env\<close>, and whether
  the process has been terminated (\<^verbatim>\<open>process.exit\<close> sets the exit code).
  An abort signal is either one handed in by the caller or the signal of a fresh
  controller that nobody else holds.
\<close>

type_synonym js_env = "js_string \<rightharpoonup> js_string"

record host =
  process_cwd :: js_string
  process_env :: js_env
  exited :: "int option"

datatype abort_signal = CallerSignal nat | FreshSignal

record tool_ctx =
  cwd :: js_string
  signal :: abort_signal
  env :: "js_env option"

section \<open>Paths (POSIX \<^verbatim>\<open>node:path\<close>)\<close>

definition path_sep :: code_unit where
  "path_sep = 47"

text \<open>
  \<^verbatim>\<open>normalizeString\<close> of an absolute path: empty and \<^verbatim>\<open>.\<close> segments are dropped,
  \<^verbatim>\<open>..\<close> removes the last kept segment (nothing at the root).
\<close>

fun normalize_segments :: "js_string list \<Rightarrow> js_string list \<Rightarrow> js_string list" where
  "normalize_segments acc [] = acc"
| "normalize_segments acc (s # ss) =
     (if s = [] \<or> s = js ''.'' then normalize_segments acc ss
      else if s = js ''..'' then normalize_segments (butlast acc) ss
      else normalize_segments (acc @ [s]) ss)"

text \<open>
  \<^verbatim>\<open>path.resolve\<close>: the arguments are taken from the right, empty ones skipped, each
  put in front of what is there with a separator, until one starts with the separator;
  \<^verbatim>\<open>process.cwd()\<close> comes last.
\<close>

fun resolve_loop :: "js_string list \<Rightarrow> js_string \<Rightarrow> js_string" where
  "resolve_loop [] resolvedPath = resolvedPath"
| "resolve_loop (p # ps) resolvedPath =
     (if p = [] then resolve_loop ps resolvedPath
      else if hd p = path_sep then p @ [path_sep] @ resolvedPath
      else resolve_loop ps (p @ [path_sep] @ resolvedPath))"

definition resolve_segments :: "js_string \<Rightarrow> js_string list \<Rightarrow> js_string list" where
  "resolve_segments pcwd paths =
     normalize_segments [] (split_on path_sep (resolve_loop (rev paths @ [pcwd]) []))"

definition path_resolve :: "js_string \<Rightarrow> js_string list \<Rightarrow> js_string" where
  "path_resolve pcwd paths = path_sep # join_with [path_sep] (resolve_segments pcwd paths)"

text \<open>
  \<^verbatim>\<open>path.relative\<close>: both paths resolved; one \<^verbatim>\<open>..\<close> for every segment of
  the first path after the common segments, then the remaining segments of the second.
\<close>

definition path_relative :: "js_string \<Rightarrow> js_string \<Rightarrow> js_string \<Rightarrow> js_string" where
  "path_relative pcwd src dst =
     (let f = resolve_segments pcwd [src];
          t = resolve_segments pcwd [dst];
          n = length (longest_common_prefix f t)
      in join_with [path_sep] (replicate (length f - n) (js ''..'') @ drop n t))"

subsection \<open>pathUtils: \<^verbatim>\<open>resolveRepoPath\<close>, \<^verbatim>\<open>pathFromRepoRoot\<close>\<close>

text \<open>
  The candidate as \<^verbatim>\<open>resolveRepoPath\<close> hands it to \<^verbatim>\<open>path.resolve\<close>: trimmed,
  \<^verbatim>\<open>.\<close> when empty, and prefixed with \<^verbatim>\<open>./\<close> unless it starts with a dot.
\<close>

definition prefixed_candidate :: "js_string \<Rightarrow> js_string" where
  "prefixed_candidate inputPath =
     (let normalized = (if length (trim inputPath) \<noteq> 0 then trim inputPath else js ''.'')
      in if startsWith normalized (js ''.'') then normalized else js ''./'' @ normalized)"

definition resolveRepoPath :: "host \<Rightarrow> js_string \<Rightarrow> tool_ctx \<Rightarrow> js_error + js_string" where
  "resolveRepoPath h inputPath ctx =
     (let root = path_resolve (process_cwd h) [cwd ctx];
          target = path_resolve (process_cwd h) [root, prefixed_candidate inputPath]
      in if target \<noteq> root \<and> \<not> startsWith target (root @ [path_sep])
         then Inl AccessViolation
         else Inr target)"

definition pathFromRepoRoot :: "host \<Rightarrow> js_string \<Rightarrow> tool_ctx \<Rightarrow> js_string" where
  "pathFromRepoRoot h absolutePath ctx =
     (let root = path_resolve (process_cwd h) [cwd ctx];
          r = path_relative (process_cwd h) root absolutePath
      in if r = [] then js ''.'' else r)"

section \<open>The sandbox's process object\<close>

text \<open>
  \<^verbatim>\<open>createSandboxProcess\<close>: the merged environment, the confined working directory,
  and \<^verbatim>\<open>exit\<close>, which throws. A call of a capability runs against the host and
  returns the host it leaves; the argument of \<^verbatim>\<open>exit\<close> is optional and defaults to 0.
  \<open>host_exit\<close> is the \<^verbatim>\<open>process.exit\<close> of the host itself, which the entry
  point calls on SIGINT and SIGTERM.
\<close>

definition host_exit :: "int \<Rightarrow> host \<Rightarrow> (js_error + unit) \<times> host" where
  "host_exit code h = (Inr (), h\<lparr>exited := Some code\<rparr>)"

record sandbox_process =
  sp_env :: js_env
  sp_cwd :: "host \<Rightarrow> (js_error + js_string) \<times> host"
  sp_exit :: "int option \<Rightarrow> host \<Rightarrow> (js_error + unit) \<times> host"

definition createSandboxProcess :: "host \<Rightarrow> tool_ctx \<Rightarrow> sandbox_process" where
  "createSandboxProcess h0 ctx =
     \<lparr> sp_env = process_env h0 ++ (case env ctx of None \<Rightarrow> Map.empty | Some e \<Rightarrow> e),
       sp_cwd = (\<lambda>h. (resolveRepoPath h (js ''.'') ctx, h)),
       sp_exit = (\<lambda>arg h.
          let code = (case arg of None \<Rightarrow> 0 | Some c \<Rightarrow> c)
          in (Inl (Error (js ''process.exit('' @ show_int code @
                          js '') is not allowed inside the node tool.'')), h)) \<rparr>"

section \<open>Regular expressions\<close>

text \<open>
  The three patterns of the response parser are sequences of pattern characters,
  character classes, quantified classes, capture parentheses, one alternation and the
  assertion \<^verbatim>\<open>$\<close>. \<open>rx_match\<close> is the backtracking matcher of ECMAScript on such
  sequences, under the flag \<^verbatim>\<open>i\<close> and without the flags \<^verbatim>\<open>u\<close> and \<^verbatim>\<open>m\<close>.

  Under \<^verbatim>\<open>i\<close> two code units match when their canonical forms agree. The canonical
  form of an ASCII letter is its upper case; a unit at or above 128 never has a canonical
  form below 128, so against the ASCII characters of these patterns it behaves as if it
  were its own canonical form.
\<close>

definition canonicalize :: "code_unit \<Rightarrow> code_unit" where
  "canonicalize c = (if 97 \<le> c \<and> c \<le> 122 then c - 32 else c)"

datatype char_class =
    Space                       \<comment> \<open>\<^verbatim>\<open>\s\<close>\<close>
  | AnyUnit                     \<comment> \<open>\<^verbatim>\<open>[\s\S]\<close>\<close>
  | NotUnit code_unit           \<comment> \<open>\<^verbatim>\<open>[^c]\<close>\<close>
  | Range code_unit code_unit   \<comment> \<open>\<^verbatim>\<open>[a-b]\<close>\<close>

fun class_matches :: "char_class \<Rightarrow> code_unit \<Rightarrow> bool" where
  "class_matches Space c = isWhiteSpace c"
| "class_matches AnyUnit c = True"
| "class_matches (NotUnit d) c = (canonicalize c \<noteq> canonicalize d)"
| "class_matches (Range lo hi) c =
     list_ex (\<lambda>m. canonicalize m = canonicalize c) [lo ..< Suc hi]"

datatype atom =
    Lit code_unit               \<comment> \<open>a pattern character\<close>
  | One char_class              \<comment> \<open>a class, once\<close>
  | Star char_class             \<comment> \<open>a class with \<^verbatim>\<open>*\<close>: greedy\<close>
  | LazyStar char_class         \<comment> \<open>a class with \<^verbatim>\<open>*?\<close>: lazy\<close>
  | Open                        \<comment> \<open>\<^verbatim>\<open>(\<close> of a capture group\<close>
  | Close                       \<comment> \<open>\<^verbatim>\<open>)\<close> of a capture group\<close>
  | Alt "atom list" "atom list" \<comment> \<open>\<^verbatim>\<open>(?:a|b)\<close>\<close>
  | Eos                         \<comment> \<open>\<^verbatim>\<open>$\<close>\<close>

type_synonym regex = "atom list"

text \<open>A literal of the pattern, and a class with \<^verbatim>\<open>+\<close>: once, then \<^verbatim>\<open>*\<close>.\<close>

definition lits :: "string \<Rightarrow> regex" where
  "lits s = map Lit (js s)"

definition rx_plus :: "char_class \<Rightarrow> regex" where
  "rx_plus C = [One C, Star C]"

text \<open>
  The state of a match: the captures of the groups closed so far, in order, and the
  text of the group that is open, if one is.
\<close>

type_synonym captures = "js_string list \<times> js_string option"

fun consume :: "code_unit \<Rightarrow> captures \<Rightarrow> captures" where
  "consume x (closed, None) = (closed, None)"
| "consume x (closed, Some g) = (closed, Some (g @ [x]))"

fun open_group :: "captures \<Rightarrow> captures" where
  "open_group (closed, cur) = (closed, Some [])"

fun close_group :: "captures \<Rightarrow> captures" where
  "close_group (closed, None) = (closed @ [[]], None)"
| "close_group (closed, Some g) = (closed @ [g], None)"

text \<open>
  \<open>rx_match r s st\<close> matches \<open>r\<close> at the start of \<open>s\<close>. A greedy star first takes
  one more unit and goes on, and gives it back when the rest then fails; a lazy star
  first goes on with the rest and takes one more unit when that fails.
\<close>

function (sequential) rx_match :: "regex \<Rightarrow> js_string \<Rightarrow> captures \<Rightarrow> js_string list option" where
  "rx_match [] s st = Some (fst st)"
| "rx_match (Lit c # r) [] st = None"
| "rx_match (Lit c # r) (x # xs) st =
     (if canonicalize x = canonicalize c then rx_match r xs (consume x st) else None)"
| "rx_match (One C # r) [] st = None"
| "rx_match (One C # r) (x # xs) st =
     (if class_matches C x then rx_match r xs (consume x st) else None)"
| "rx_match (Star C # r) [] st = rx_match r [] st"
| "rx_match (Star C # r) (x # xs) st =
     (if class_matches C x
      then (case rx_match (Star C # r) xs (consume x st) of
              Some caps \<Rightarrow> Some caps
            | None \<Rightarrow> rx_match r (x # xs) st)
      else rx_match r (x # xs) st)"
| "rx_match (LazyStar C # r) [] st = rx_match r [] st"
| "rx_match (LazyStar C # r) (x # xs) st =
     (case rx_match r (x # xs) st of
        Some caps \<Rightarrow> Some caps
      | None \<Rightarrow> if class_matches C x then rx_match (LazyStar C # r) xs (consume x st) else None)"
| "rx_match (Open # r) s st = rx_match r s (open_group st)"
| "rx_match (Close # r) s st = rx_match r s (close_group st)"
| "rx_match (Alt a b # r) s st =
     (case rx_match (a @ r) s st of
        Some caps \<Rightarrow> Some caps
      | None \<Rightarrow> rx_match (b @ r) s st)"
| "rx_match (Eos # r) s st = (if s = [] then rx_match r s st else None)"
  by pat_completeness auto
termination
  by (relation "measures [\<lambda>(r, s, st). size_list size r, \<lambda>(r, s, st). length s]")
     (auto simp: size_list_append)

text \<open>
  \<^verbatim>\<open>String.prototype.match\<close> with a pattern without the flag \<^verbatim>\<open>g\<close>: the first
  start position, from the left, at which the pattern matches; the result is the list
  of the captures (the groups 1, 2, ... of the match).
\<close>

fun rx_search :: "regex \<Rightarrow> js_string \<Rightarrow> js_string list option" where
  "rx_search r [] = rx_match r [] ([], None)"
| "rx_search r (x # xs) =
     (case rx_match r (x # xs) ([], None) of
        Some caps \<Rightarrow> Some caps
      | None \<Rightarrow> rx_search r xs)"

section \<open>reactParser\<close>

datatype ReactResponse =
    Action js_string js_string js_string    \<comment> \<open>thought, toolName, toolInput\<close>
  | Final js_string js_string             \<comment> \<open>thought, finalResponse\<close>

text \<open>\<^verbatim>\<open>/Thought:\s*([\s\S]*?)(?:\n[A-Z][^:]+:|$)/i\<close>\<close>

definition thought_rx :: regex where
  "thought_rx =
     lits ''Thought:'' @ [Star Space, Open, LazyStar AnyUnit, Close,
       Alt ([Lit 10, One (Range 65 90)] @ rx_plus (NotUnit 58) @ [Lit 58]) [Eos]]"

text \<open>\<^verbatim>\<open>/Final Response:\s*([\s\S]+)/i\<close>\<close>

definition final_rx :: regex where
  "final_rx = lits ''Final Response:'' @ [Star Space, Open] @ rx_plus AnyUnit @ [Close]"

text \<open>\<^verbatim>\<open>/Action:\s*([^\n]+)\nAction Input:\s*([\s\S]+)/i\<close>\<close>

definition action_rx :: regex where
  "action_rx =
     lits ''Action:'' @ [Star Space, Open] @ rx_plus (NotUnit 10) @ [Close, Lit 10] @
     lits ''Action Input:'' @ [Star Space, Open] @ rx_plus AnyUnit @ [Close]"

definition extractThought :: "js_string \<Rightarrow> js_string" where
  "extractThought output =
     (case rx_search thought_rx output of
        Some thoughtMatch \<Rightarrow> trim (thoughtMatch ! 0)
      | None \<Rightarrow> [])"

definition parseReactOutput :: "js_string \<Rightarrow> js_error + ReactResponse" where
  "parseReactOutput output =
     (let trimmed = trim output;
          thought = extractThought trimmed
      in case rx_search final_rx trimmed of
           Some finalMatch \<Rightarrow> Inr (Final thought (trim (finalMatch ! 0)))
         | None \<Rightarrow>
             (case rx_search action_rx trimmed of
                Some actionMatch \<Rightarrow>
                  Inr (Action thought (trim (actionMatch ! 0)) (trim (actionMatch ! 1)))
              | None \<Rightarrow> Inl UnparsableResponse))"

section \<open>types\<close>

datatype Role = System | User | Assistant | ToolRole

record ChatMessage =
  role :: Role
  content :: js_string
  msg_name :: "js_string option"

text \<open>
  A tool runs against the world outside the agent (\<open>'w\<close>: the file system, the
  network, whatever the model and the tools touch) and returns the world it leaves,
  with its text or the error it throws.
\<close>

record 'w Tool =
  tool_name :: js_string
  description :: js_string
  inputGuide :: "js_string option"
  execute :: "js_string \<Rightarrow> tool_ctx \<Rightarrow> 'w \<Rightarrow> (js_error + js_string) \<times> 'w"

record 'w AgentConfig =
  instructions :: js_string
  tools :: "'w Tool list"
  maxTurns :: "int option"

record ToolInvocation =
  toolName :: js_string
  toolInput :: js_string

record AgentThought =
  thought :: js_string
  action :: "ToolInvocation option"
  observation :: "js_string option"
  rawOutput :: "js_string option"

record AgentResult =
  outputText :: js_string
  thoughts :: "AgentThought list"

section \<open>reactPrompt\<close>

definition FORMAT_GUIDE :: js_string where
  "FORMAT_GUIDE = js (''Use the ReAct pattern to solve the task.\<newline>'' @
     ''Respond using the following blocks:\<newline>'' @
     ''Thought: describe what you are considering.\<newline>'' @
     ''Action: the name of a tool, exactly matching one of the provided tools.\<newline>'' @
     ''Action Input: plain text arguments for the tool.\<newline>'' @
     ''\<newline>'' @
     ''If you have finished, reply with:\<newline>'' @
     ''Thought: describe how you solved it.\<newline>'' @
     ''Final Response: the final answer for the user.'')"

definition SAFETY_RULES :: js_string where
  "SAFETY_RULES = js (''- Think before acting; never guess commands.\<newline>'' @
     ''- Prefer reading files before writing to them.\<newline>'' @
     ''- Execute at most one tool per response.\<newline>'' @
     ''- Keep Action Input short and actionable.\<newline>'' @
     ''- Never fabricate tool names or capabilities.'')"

record 'w ReactPromptOptions =
  po_instructions :: js_string
  po_tools :: "'w Tool list"
  po_task :: js_string
  po_scratchpad :: "js_string option"
  po_contextMessages :: "ChatMessage list option"

definition toolDescription :: "'w Tool \<Rightarrow> js_string" where
  "toolDescription t =
     (let guide = (case inputGuide t of
                     None \<Rightarrow> []
                   | Some g \<Rightarrow> if g = [] then [] else js ''\<newline>Input: '' @ g)
      in js ''- '' @ tool_name t @ js '': '' @ description t @ guide)"

definition buildReactMessages :: "'w ReactPromptOptions \<Rightarrow> ChatMessage list" where
  "buildReactMessages opts =
     (let contextMessages = (case po_contextMessages opts of None \<Rightarrow> [] | Some ms \<Rightarrow> ms);
          toolDescriptions = join_with (js ''\<newline>'') (map toolDescription (po_tools opts));
          systemPrompt = js ''You are an autonomous coding agent.\<newline>'' @
            trim (po_instructions opts) @
            js ''\<newline>\<newline>Available tools:\<newline>'' @ toolDescriptions @
            js ''\<newline>\<newline>'' @ FORMAT_GUIDE @ js ''\<newline>\<newline>'' @ SAFETY_RULES;
          scratchpadBlock = (case po_scratchpad opts of
                               None \<Rightarrow> []
                             | Some scratchpad \<Rightarrow>
                                 if length (trim scratchpad) \<noteq> 0
                                 then js ''\<newline>\<newline>Scratchpad:\<newline>'' @ scratchpad
                                 else [])
      in [\<lparr>role = System, content = systemPrompt, msg_name = None\<rparr>] @
         contextMessages @
         [\<lparr>role = User, content = trim (po_task opts) @ scratchpadBlock, msg_name = None\<rparr>])"

section \<open>agent\<close>

text \<open>
  The language model is a collaborator: \<^verbatim>\<open>complete\<close> runs against the world and
  returns its text or the error of its rejected promise.
\<close>

record 'w LanguageModel =
  complete :: "ChatMessage list \<Rightarrow> abort_signal \<Rightarrow> 'w \<Rightarrow> (js_error + js_string) \<times> 'w"

record AgentRunOptions =
  opt_signal :: "abort_signal option"
  opt_cwd :: "js_string option"
  opt_env :: "js_env option"

record 'w ReactAgent =
  llm :: "'w LanguageModel"
  agentTools :: "'w Tool list"
  toolMap :: "js_string \<rightharpoonup> 'w Tool"
  agentInstructions :: js_string
  agentMaxTurns :: int

text \<open>The constructor: a later tool of the same name replaces an earlier one in the map.\<close>

definition newReactAgent :: "'w LanguageModel \<Rightarrow> 'w AgentConfig \<Rightarrow> 'w ReactAgent" where
  "newReactAgent model config =
     \<lparr> llm = model,
       agentTools = tools config,
       toolMap = fold (\<lambda>tool m. m(tool_name tool \<mapsto> tool)) (tools config) Map.empty,
       agentInstructions = instructions config,
       agentMaxTurns = (case maxTurns config of None \<Rightarrow> 8 | Some n \<Rightarrow> n) \<rparr>"

text \<open>
  The calls a run makes to its collaborators, in order, each with what came back: the
  trace of a run.
\<close>

datatype event =
    ModelCall "ChatMessage list" "js_error + js_string"
  | ToolCall js_string js_string "js_error + js_string"

definition exhaustedOutput :: js_string where
  "exhaustedOutput = js ''I could not finish within the allotted number of steps.''"

text \<open>
  The \<^verbatim>\<open>catch\<close> block around the call of a tool,
  \<^verbatim>\<open>`Tool execution failed: ${(error as Error).message}`\<close>. The cast checks nothing:
  reading \<^verbatim>\<open>message\<close> of \<^verbatim>\<open>null\<close> or \<^verbatim>\<open>undefined\<close> throws a \<^verbatim>\<open>TypeError\<close>
  inside the block, which nothing catches, and a value without a \<^verbatim>\<open>message\<close> gives
  the text \<^verbatim>\<open>undefined\<close>.
\<close>

definition failedObservation :: "js_error \<Rightarrow> js_error + js_string" where
  "failedObservation error =
     (case error of
        JsError n m \<Rightarrow> Inr (js ''Tool execution failed: '' @ m)
      | ThrownNull \<Rightarrow>
          Inl (TypeError (js ''Cannot read properties of null (reading '' @ [39] @
                          js ''message'' @ [39] @ js '')''))
      | ThrownUndefined \<Rightarrow>
          Inl (TypeError (js ''Cannot read properties of undefined (reading '' @ [39] @
                          js ''message'' @ [39] @ js '')''))
      | ThrownValue v \<Rightarrow> Inr (js ''Tool execution failed: undefined''))"

text \<open>
  What a call of a tool leaves as the observation: its text, or its failure; or what the
  \<^verbatim>\<open>catch\<close> block itself throws.
\<close>

definition observationOf :: "js_error + js_string \<Rightarrow> js_error + js_string" where
  "observationOf res = (case res of Inr text \<Rightarrow> Inr text | Inl error \<Rightarrow> failedObservation error)"

definition turnScratch :: "js_string \<Rightarrow> js_string \<Rightarrow> js_string \<Rightarrow> js_string \<Rightarrow> js_string" where
  "turnScratch th tn ti obs =
     join_with (js ''\<newline>'')
       [js ''Thought: '' @ th, js ''Action: '' @ tn, js ''Action Input: '' @ ti,
        js ''Observation: '' @ obs]"

definition nextScratchpad :: "js_string \<Rightarrow> js_string \<Rightarrow> js_string" where
  "nextScratchpad scratchpad ts =
     (if length scratchpad \<noteq> 0 then scratchpad @ js ''\<newline>\<newline>'' @ ts else ts)"

definition turnMessages :: "'w ReactAgent \<Rightarrow> js_string \<Rightarrow> js_string \<Rightarrow> ChatMessage list" where
  "turnMessages ag task scratchpad =
     buildReactMessages
       \<lparr> po_instructions = agentInstructions ag, po_tools = agentTools ag, po_task = task,
         po_scratchpad = Some scratchpad, po_contextMessages = None \<rparr>"

text \<open>
  The loop of \<^verbatim>\<open>run\<close>, from the turn, the step records, the scratchpad, the world
  and the trace it has reached.
\<close>

function agent_loop ::
  "'w ReactAgent \<Rightarrow> js_string \<Rightarrow> tool_ctx \<Rightarrow> int \<Rightarrow> AgentThought list \<Rightarrow> js_string \<Rightarrow> 'w \<Rightarrow>
   event list \<Rightarrow> (js_error + AgentResult) \<times> 'w \<times> event list" where
  "agent_loop ag task ctx turn ths scratchpad w tr =
     (if turn < agentMaxTurns ag then
        (let messages = turnMessages ag task scratchpad;
             reply = complete (llm ag) messages (signal ctx) w;
             w1 = snd reply;
             tr1 = tr @ [ModelCall messages (fst reply)]
         in case fst reply of
              Inl error \<Rightarrow> (Inl error, w1, tr1)
            | Inr llmOutput \<Rightarrow>
                (case parseReactOutput llmOutput of
                   Inl error \<Rightarrow> (Inl error, w1, tr1)
                 | Inr (Final th finalResponse) \<Rightarrow>
                     (Inr \<lparr> outputText = finalResponse,
                            thoughts = ths @ [\<lparr> thought = th, action = None,
                                                observation = None,
                                                rawOutput = Some llmOutput \<rparr>] \<rparr>,
                      w1, tr1)
                 | Inr (Action th tn ti) \<Rightarrow>
                     (case toolMap ag tn of
                        None \<Rightarrow> (Inl (UnknownTool tn), w1, tr1)
                      | Some tool \<Rightarrow>
                          (let result = execute tool ti ctx w1;
                               tr2 = tr1 @ [ToolCall tn ti (fst result)]
                           in case observationOf (fst result) of
                                Inl error \<Rightarrow> (Inl error, snd result, tr2)
                              | Inr obs \<Rightarrow>
                                  agent_loop ag task ctx (turn + 1)
                                    (ths @ [\<lparr> thought = th,
                                              action = Some \<lparr> toolName = tn, toolInput = ti \<rparr>,
                                              observation = Some obs,
                                              rawOutput = Some llmOutput \<rparr>])
                                    (nextScratchpad scratchpad (turnScratch th tn ti obs))
                                    (snd result)
                                    tr2))))
      else (Inr \<lparr> outputText = exhaustedOutput, thoughts = ths \<rparr>, w, tr))"
  by pat_completeness auto
termination
  by (relation "measure (\<lambda>(ag, task, ctx, turn, ths, scratchpad, w, tr). nat (agentMaxTurns ag - turn))")
     auto

declare agent_loop.simps [simp del]

definition run ::
  "host \<Rightarrow> 'w ReactAgent \<Rightarrow> js_string \<Rightarrow> AgentRunOptions \<Rightarrow> 'w \<Rightarrow>
   (js_error + AgentResult) \<times> 'w \<times> event list" where
  "run h ag task options w =
     (let sig = (case opt_signal options of None \<Rightarrow> FreshSignal | Some s \<Rightarrow> s);
          dir = (case opt_cwd options of None \<Rightarrow> process_cwd h | Some d \<Rightarrow> d);
          ctx = \<lparr> cwd = dir, signal = sig, env = opt_env options \<rparr>
      in agent_loop ag task ctx 0 [] [] w [])"

section \<open>The file system (\<^verbatim>\<open>node:fs/promises\<close>)\<close>

text \<open>
  The file system is a tree. A file is the text that \<^verbatim>\<open>readFile(path, 'utf8')\<close>
  returns, its size in bytes, and whether it may be read; a directory is its entries, in
  the order of \<^verbatim>\<open>readdir\<close>, and whether it may be read; anything else (a socket,
  a FIFO) is neither a file nor a directory. The state of the file system is the node of
  the root directory.
\<close>

datatype fs_node =
    File js_string nat bool
  | Dir "(js_string \<times> fs_node) list" bool
  | Special

datatype errno = ENOENT | ENOTDIR | EACCES | EISDIR | EEXIST | ENXIO

definition errno_text :: "errno \<Rightarrow> js_string" where
  "errno_text e =
     (case e of
        ENOENT \<Rightarrow> js ''ENOENT: no such file or directory''
      | ENOTDIR \<Rightarrow> js ''ENOTDIR: not a directory''
      | EACCES \<Rightarrow> js ''EACCES: permission denied''
      | EISDIR \<Rightarrow> js ''EISDIR: illegal operation on a directory''
      | EEXIST \<Rightarrow> js ''EEXIST: file already exists''
      | ENXIO \<Rightarrow> js ''ENXIO: no such device or address'')"

text \<open>The error of a failed call, with the message Node gives it.\<close>

definition fs_error :: "errno \<Rightarrow> string \<Rightarrow> js_string \<Rightarrow> js_error" where
  "fs_error e syscall path =
     Error (errno_text e @ js '', '' @ js syscall @ js '' '' @ [39] @ path @ [39])"

definition path_segments :: "js_string \<Rightarrow> js_string list" where
  "path_segments p = filter (\<lambda>s. s \<noteq> []) (split_on path_sep p)"

fun update_entry :: "js_string \<Rightarrow> fs_node \<Rightarrow> (js_string \<times> fs_node) list \<Rightarrow> (js_string \<times> fs_node) list" where
  "update_entry k v [] = [(k, v)]"
| "update_entry k v ((k', v') # es) =
     (if k' = k then (k, v) # es else (k', v') # update_entry k v es)"

fun fs_lookup :: "fs_node \<Rightarrow> js_string list \<Rightarrow> errno + fs_node" where
  "fs_lookup n [] = Inr n"
| "fs_lookup (Dir entries r) (s # ss) =
     (case map_of entries s of
        None \<Rightarrow> Inl ENOENT
      | Some child \<Rightarrow> fs_lookup child ss)"
| "fs_lookup (File t z r) (s # ss) = Inl ENOTDIR"
| "fs_lookup Special (s # ss) = Inl ENOTDIR"

text \<open>\<^verbatim>\<open>mkdir(path, {recursive: true})\<close>: the directories that are missing are made.\<close>

fun mkdir_p :: "fs_node \<Rightarrow> js_string list \<Rightarrow> errno + fs_node" where
  "mkdir_p (Dir entries r) [] = Inr (Dir entries r)"
| "mkdir_p (File t z r) [] = Inl EEXIST"
| "mkdir_p Special [] = Inl EEXIST"
| "mkdir_p (Dir entries r) (s # ss) =
     (case map_of entries s of
        None \<Rightarrow>
          (case mkdir_p (Dir [] True) ss of
             Inl e \<Rightarrow> Inl e
           | Inr made \<Rightarrow> Inr (Dir (update_entry s made entries) r))
      | Some child \<Rightarrow>
          (case mkdir_p child ss of
             Inl e \<Rightarrow> Inl e
           | Inr child' \<Rightarrow> Inr (Dir (update_entry s child' entries) r)))"
| "mkdir_p (File t z r) (s # ss) = Inl ENOTDIR"
| "mkdir_p Special (s # ss) = Inl ENOTDIR"

text \<open>
  \<^verbatim>\<open>writeFile\<close> puts the text where the path ends: into the file that is there,
  which keeps its mode, so that a file that may not be read still may not; or into a new
  file, which may be read, entered in the directory above, which has to exist.
\<close>

fun write_node :: "fs_node \<Rightarrow> js_string list \<Rightarrow> js_string \<Rightarrow> nat \<Rightarrow> errno + fs_node" where
  "write_node (Dir entries r) [] t z = Inl EISDIR"
| "write_node (File t0 z0 r) [] t z = Inr (File t z r)"
| "write_node Special [] t z = Inl ENXIO"
| "write_node (Dir entries r) (s # ss) t z =
     (case map_of entries s of
        None \<Rightarrow>
          if ss = [] then Inr (Dir (update_entry s (File t z True) entries) r) else Inl ENOENT
      | Some child \<Rightarrow>
          (case write_node child ss t z of
             Inl e \<Rightarrow> Inl e
           | Inr child' \<Rightarrow> Inr (Dir (update_entry s child' entries) r)))"
| "write_node (File t0 z0 r) (s # ss) t z = Inl ENOTDIR"
| "write_node Special (s # ss) t z = Inl ENOTDIR"

text \<open>
  The bytes of a text in UTF-8: one for a unit below 128, two below 2048, four for a
  surrogate pair, three otherwise (a surrogate without its partner is written as
  U+FFFD, and read back as U+FFFD).
\<close>

definition isHighSurrogate :: "code_unit \<Rightarrow> bool" where
  "isHighSurrogate c = (55296 \<le> c \<and> c \<le> 56319)"

definition isLowSurrogate :: "code_unit \<Rightarrow> bool" where
  "isLowSurrogate c = (56320 \<le> c \<and> c \<le> 57343)"

fun utf8_length :: "js_string \<Rightarrow> nat" where
  "utf8_length [] = 0"
| "utf8_length [c] = (if c < 128 then 1 else if c < 2048 then 2 else 3)"
| "utf8_length (c # d # cs) =
     (if c < 128 then 1 + utf8_length (d # cs)
      else if c < 2048 then 2 + utf8_length (d # cs)
      else if isHighSurrogate c \<and> isLowSurrogate d then 4 + utf8_length cs
      else 3 + utf8_length (d # cs))"

fun toWellFormed :: "js_string \<Rightarrow> js_string" where
  "toWellFormed [] = []"
| "toWellFormed [c] = (if isHighSurrogate c \<or> isLowSurrogate c then [65533] else [c])"
| "toWellFormed (c # d # cs) =
     (if isHighSurrogate c \<and> isLowSurrogate d then c # d # toWellFormed cs
      else if isHighSurrogate c \<or> isLowSurrogate c then 65533 # toWellFormed (d # cs)
      else c # toWellFormed (d # cs))"

definition isWellFormed :: "js_string \<Rightarrow> bool" where
  "isWellFormed s = (toWellFormed s = s)"

text \<open>
  What the tools read of \<^verbatim>\<open>Stats\<close>; the size of anything but a file is never
  looked at, and is given as 0.
\<close>

record Stats =
  isDirectory :: bool
  isFile :: bool
  size :: nat

definition fs_stat :: "fs_node \<Rightarrow> js_string \<Rightarrow> js_error + Stats" where
  "fs_stat fs path =
     (case fs_lookup fs (path_segments path) of
        Inl e \<Rightarrow> Inl (fs_error e ''stat'' path)
      | Inr (File t z r) \<Rightarrow> Inr \<lparr> isDirectory = False, isFile = True, size = z \<rparr>
      | Inr (Dir entries r) \<Rightarrow> Inr \<lparr> isDirectory = True, isFile = False, size = 0 \<rparr>
      | Inr Special \<Rightarrow> Inr \<lparr> isDirectory = False, isFile = False, size = 0 \<rparr>)"

definition fs_readFile :: "fs_node \<Rightarrow> js_string \<Rightarrow> js_error + js_string" where
  "fs_readFile fs path =
     (case fs_lookup fs (path_segments path) of
        Inl e \<Rightarrow> Inl (fs_error e ''open'' path)
      | Inr (File t z r) \<Rightarrow> if r then Inr t else Inl (fs_error EACCES ''open'' path)
      | Inr (Dir entries r) \<Rightarrow> Inl (fs_error EISDIR ''read'' path)
      | Inr Special \<Rightarrow> Inl (fs_error ENXIO ''open'' path))"

definition fs_mkdir :: "fs_node \<Rightarrow> js_string \<Rightarrow> js_error + fs_node" where
  "fs_mkdir fs path =
     (case mkdir_p fs (path_segments path) of
        Inl e \<Rightarrow> Inl (fs_error e ''mkdir'' path)
      | Inr fs' \<Rightarrow> Inr fs')"

definition fs_writeFile :: "fs_node \<Rightarrow> js_string \<Rightarrow> js_string \<Rightarrow> js_error + fs_node" where
  "fs_writeFile fs path contents =
     (case write_node fs (path_segments path) (toWellFormed contents) (utf8_length contents) of
        Inl e \<Rightarrow> Inl (fs_error e ''open'' path)
      | Inr fs' \<Rightarrow> Inr fs')"

text \<open>\<^verbatim>\<open>path.dirname\<close>, as Node scans the path from its end.\<close>

definition path_dirname :: "js_string \<Rightarrow> js_string" where
  "path_dirname path =
     (if path = [] then js ''.''
      else
        (let hasRoot = (hd path = path_sep);
             scanned = dropWhile (\<lambda>c. c \<noteq> path_sep)
                         (dropWhile (\<lambda>c. c = path_sep) (rev (tl path)));
             endIndex = length scanned
         in if scanned = [] then (if hasRoot then js ''/'' else js ''.'')
            else if hasRoot \<and> endIndex = 1 then js ''//''
            else take endIndex path))"

section \<open>JSON\<close>

text \<open>
  What \<^verbatim>\<open>JSON.parse\<close> returns: the parser itself is a parameter of the tools that
  read a JSON payload, \<open>None\<close> standing for its \<^verbatim>\<open>SyntaxError\<close>. An object is the
  list of its properties; a number is kept as an integer (the tools only look at the
  type of a value and at whether it is falsy).
\<close>

datatype json =
    JNull
  | JBool bool
  | JNumber int
  | JString js_string
  | JArray "json list"
  | JObject "(js_string \<times> json) list"

type_synonym json_parser = "js_string \<Rightarrow> json option"

text \<open>\<^verbatim>\<open>payload.key\<close> of a parsed value: \<open>None\<close> is \<^verbatim>\<open>undefined\<close>.\<close>

fun property :: "json \<Rightarrow> js_string \<Rightarrow> json option" where
  "property (JObject props) k = map_of props k"
| "property v k = None"

fun falsy :: "json \<Rightarrow> bool" where
  "falsy JNull = True"
| "falsy (JBool b) = (\<not> b)"
| "falsy (JNumber n) = (n = 0)"
| "falsy (JString s) = (s = [])"
| "falsy (JArray xs) = False"
| "falsy (JObject props) = False"

section \<open>filesystem tools\<close>

record WriteFilePayload =
  wp_path :: js_string
  wp_contents :: js_string

definition parseWritePayload :: "json_parser \<Rightarrow> js_string \<Rightarrow> js_error + WriteFilePayload" where
  "parseWritePayload parse inputText =
     (case parse inputText of
        None \<Rightarrow> Inl (Error (js ''Invalid JSON. Provide {'' @ [34] @ js ''path'' @ [34] @ js '': '' @
                 [34] @ js ''...'' @ [34] @ js '', '' @ [34] @ js ''contents'' @ [34] @ js '': '' @
                 [34] @ js ''...'' @ [34] @ js ''}.''))
      | Some payload \<Rightarrow>
          (case (if falsy payload then None else property payload (js ''path'')) of
             Some (JString p) \<Rightarrow>
               (case property payload (js ''contents'') of
                  Some (JString c) \<Rightarrow> Inr \<lparr> wp_path = p, wp_contents = c \<rparr>
                | _ \<Rightarrow> Inl (Error (js ''Missing '' @ [34] @ js ''contents'' @ [34] @
                               js '' string field.'')))
           | _ \<Rightarrow> Inl (Error (js ''Missing '' @ [34] @ js ''path'' @ [34] @ js '' string field.''))))"

definition createReadFileTool :: "host \<Rightarrow> fs_node Tool" where
  "createReadFileTool h =
     \<lparr> tool_name = js ''read_file'',
       description = js ''Read the contents of a UTF-8 text file within the repo.'',
       inputGuide = Some (js ''relative file path, e.g. src/index.tsx''),
       execute = (\<lambda>inputText ctx fs.
         let relative = trim inputText in
         if relative = []
         then (Inl (Error (js ''Please provide a file path relative to the repository root.'')), fs)
         else
           (case resolveRepoPath h relative ctx of
              Inl e \<Rightarrow> (Inl e, fs)
            | Inr target \<Rightarrow>
                (case fs_stat fs target of
                   Inl e \<Rightarrow> (Inl e, fs)
                 | Inr stat \<Rightarrow>
                     if isDirectory stat
                     then (Inl (Error (js ''Cannot read a directory. Provide a file path.'')), fs)
                     else if size stat > 200000
                     then (Inr (js ''File too large to display (200KB limit).''), fs)
                     else
                       (case fs_readFile fs target of
                          Inl e \<Rightarrow> (Inl e, fs)
                        | Inr contents \<Rightarrow>
                            if length contents > 4000
                            then (Inr (take 4000 contents @ js ''\<newline>...truncated...''), fs)
                            else (Inr contents, fs))))) \<rparr>"

definition createWriteFileTool :: "json_parser \<Rightarrow> host \<Rightarrow> fs_node Tool" where
  "createWriteFileTool parse h =
     \<lparr> tool_name = js ''write_file'',
       description =
         js ''Write (create or overwrite) a UTF-8 text file relative to the repository root.'',
       inputGuide = Some (js ''JSON: {'' @ [34] @ js ''path'' @ [34] @ js '': '' @ [34] @
                          js ''src/example.ts'' @ [34] @ js '', '' @ [34] @ js ''contents'' @ [34] @
                          js '': '' @ [34] @ js ''...'' @ [34] @ js ''}''),
       execute = (\<lambda>inputText ctx fs.
         case parseWritePayload parse inputText of
           Inl e \<Rightarrow> (Inl e, fs)
         | Inr payload \<Rightarrow>
             (case resolveRepoPath h (wp_path payload) ctx of
                Inl e \<Rightarrow> (Inl e, fs)
              | Inr target \<Rightarrow>
                  (let directory = path_dirname target in
                   case fs_mkdir fs directory of
                     Inl e \<Rightarrow> (Inl e, fs)
                   | Inr fs1 \<Rightarrow>
                       (case fs_writeFile fs1 target (wp_contents payload) of
                          Inl e \<Rightarrow> (Inl e, fs1)
                        | Inr fs2 \<Rightarrow>
                            (Inr (js ''Wrote '' @ show_nat (length (wp_contents payload)) @
                                  js '' characters to '' @ pathFromRepoRoot h target ctx),
                             fs2))))) \<rparr>"

section \<open>system: \<^verbatim>\<open>file_search\<close>\<close>






























section \<open>Notions on the trace and the step records\<close>

text \<open>
  The replies of the model in a trace, in order; what the calls of the tools gave, in
  order; a call of a tool rejected with \<^verbatim>\<open>null\<close> or \<^verbatim>\<open>undefined\<close>; a reply that
  is an action naming a tool of the registry; a step record of an action turn; and what a step record has to be for
  the reply it was made from.
\<close>

fun model_replies :: "event list \<Rightarrow> (js_error + js_string) list" where
  "model_replies [] = []"
| "model_replies (ModelCall msgs reply # tr) = reply # model_replies tr"
| "model_replies (ToolCall tn ti res # tr) = model_replies tr"

fun tool_results :: "event list \<Rightarrow> (js_error + js_string) list" where
  "tool_results [] = []"
| "tool_results (ModelCall msgs reply # tr) = tool_results tr"
| "tool_results (ToolCall tn ti res # tr) = res # tool_results tr"

definition nullish_rejection :: "js_error + js_string \<Rightarrow> bool" where
  "nullish_rejection res = (res = Inl ThrownNull \<or> res = Inl ThrownUndefined)"

definition registered_reply :: "'w ReactAgent \<Rightarrow> js_error + js_string \<Rightarrow> bool" where
  "registered_reply ag reply =
     (case reply of
        Inl error \<Rightarrow> False
      | Inr llmOutput \<Rightarrow>
          (case parseReactOutput llmOutput of
             Inr (Action th tn ti) \<Rightarrow> toolMap ag tn \<noteq> None
           | Inr (Final th fr) \<Rightarrow> False
           | Inl error \<Rightarrow> False))"

definition is_action_record :: "AgentThought \<Rightarrow> bool" where
  "is_action_record t = (action t \<noteq> None \<and> observation t \<noteq> None \<and> rawOutput t \<noteq> None)"

definition record_matches :: "AgentThought \<Rightarrow> js_error + js_string \<Rightarrow> bool" where
  "record_matches t reply =
     (case reply of
        Inl error \<Rightarrow> False
      | Inr llmOutput \<Rightarrow>
          rawOutput t = Some llmOutput \<and>
          (case parseReactOutput llmOutput of
             Inr (Action th tn ti) \<Rightarrow>
               thought t = th \<and> action t = Some \<lparr> toolName = tn, toolInput = ti \<rparr> \<and>
               observation t \<noteq> None
           | Inr (Final th fr) \<Rightarrow>
               thought t = th \<and> action t = None \<and> observation t = None
           | Inl error \<Rightarrow> False))"

section \<open>Fixtures for the concrete evaluations\<close>

definition demo_host :: host where
  "demo_host = \<lparr>process_cwd = js ''/repo'', process_env = Map.empty, exited = None\<rparr>"

definition demo_ctx :: tool_ctx where
  "demo_ctx = \<lparr>cwd = js ''/repo'', signal = FreshSignal, env = None\<rparr>"

text \<open>
  Two tools, models that reply from a script (the world is the number of replies
  given so far), and agents over them.
\<close>

definition echo_tool :: "nat Tool" where
  "echo_tool = \<lparr> tool_name = js ''echo'', description = js ''Repeat the input.'',
       inputGuide = None, execute = (\<lambda>i ctx w. (Inr i, w)) \<rparr>"

definition broken_tool :: "nat Tool" where
  "broken_tool = \<lparr> tool_name = js ''broken'', description = js ''Always fails.'',
       inputGuide = Some (js ''anything''),
       execute = (\<lambda>i ctx w. (Inl (Error (js ''no such file'')), w)) \<rparr>"

definition scripted_model :: "js_string list \<Rightarrow> nat LanguageModel" where
  "scripted_model replies =
     \<lparr> complete = (\<lambda>msgs sig n.
         (if n < length replies then Inr (replies ! n) else Inl (Error (js ''no more replies'')),
          Suc n)) \<rparr>"

definition demo_agent :: "js_string list \<Rightarrow> int option \<Rightarrow> nat ReactAgent" where
  "demo_agent replies limit =
     newReactAgent (scripted_model replies)
       \<lparr> instructions = js ''Help.'', tools = [echo_tool, broken_tool], maxTurns = limit \<rparr>"

definition repeating_model :: "js_string \<Rightarrow> nat LanguageModel" where
  "repeating_model reply = \<lparr> complete = (\<lambda>msgs sig n. (Inr reply, Suc n)) \<rparr>"

definition patient_agent :: "nat ReactAgent" where
  "patient_agent =
     newReactAgent (repeating_model (js ''Action: echo\<newline>Action Input: hi''))
       \<lparr> instructions = js ''Help.'', tools = [echo_tool], maxTurns = None \<rparr>"

text \<open>
  The \<^verbatim>\<open>node\<close> tool as it answers the snippet \<^verbatim>\<open>throw null;\<close>: the promise of
  the snippet is rejected with \<^verbatim>\<open>null\<close>, and neither \<^verbatim>\<open>runUserNodeSnippet\<close> nor
  \<^verbatim>\<open>execute\<close> catches it. And an agent with this tool, no turn limit configured,
  and a model that asks for that snippet every time.
\<close>

definition null_tool :: "nat Tool" where
  "null_tool = \<lparr> tool_name = js ''node'',
       description =
         js ''Execute arbitrary JavaScript snippets inside a Node.js sandbox (supports await).'',
       inputGuide =
         Some (js ''Write JavaScript/TypeScript-compatible code. Console output is captured.''),
       execute = (\<lambda>i ctx w. (Inl ThrownNull, w)) \<rparr>"

definition careless_agent :: "nat ReactAgent" where
  "careless_agent =
     newReactAgent (repeating_model (js ''Action: node\<newline>Action Input: throw null;''))
       \<lparr> instructions = js ''Help.'', tools = [null_tool], maxTurns = None \<rparr>"

definition demo_options :: AgentRunOptions where
  "demo_options = \<lparr> opt_signal = None, opt_cwd = Some (js ''/repo''), opt_env = None \<rparr>"

text \<open>
  A file system with the repository at \<^verbatim>\<open>/repo\<close>, and a JSON parser that returns
  a given value.
\<close>

definition demo_fs :: fs_node where
  "demo_fs = Dir [(js ''repo'', Dir [(js ''notes.txt'', File (js ''hello'') 5 True)] True)] True"

definition locked_fs :: fs_node where
  "locked_fs = Dir [(js ''repo'', Dir [(js ''secret.txt'', File (js ''old'') 3 False)] True)] True"

definition fixed_parser :: "json \<Rightarrow> json_parser" where
  "fixed_parser v inputText = Some v"

definition write_payload :: "js_string \<Rightarrow> js_string \<Rightarrow> json" where
  "write_payload p c = JObject [(js ''path'', JString p), (js ''contents'', JString c)]"



section \<open>Auxiliary notions of the proofs\<close>

text \<open>A segment as \<open>normalize_segments\<close> keeps it.\<close>

definition clean :: "js_string \<Rightarrow> bool" where
  "clean s = (s \<noteq> [] \<and> s \<noteq> js ''.'' \<and> s \<noteq> js ''..'' \<and> path_sep \<notin> set s)"

text \<open>
  The language of a pattern, without the order in which the matcher tries the
  alternatives: \<open>accepts r s\<close> when \<open>r\<close> matches some prefix of \<open>s\<close>.
\<close>

inductive accepts :: "regex \<Rightarrow> js_string \<Rightarrow> bool" where
  acc_Nil:  "accepts [] s"
| acc_Lit:  "canonicalize x = canonicalize c \<Longrightarrow> accepts r xs \<Longrightarrow> accepts (Lit c # r) (x # xs)"
| acc_One:  "class_matches C x \<Longrightarrow> accepts r xs \<Longrightarrow> accepts (One C # r) (x # xs)"
| acc_Star_stop: "accepts r s \<Longrightarrow> accepts (Star C # r) s"
| acc_Star_more: "class_matches C x \<Longrightarrow> accepts (Star C # r) xs \<Longrightarrow> accepts (Star C # r) (x # xs)"
| acc_Lazy_stop: "accepts r s \<Longrightarrow> accepts (LazyStar C # r) s"
| acc_Lazy_more: "class_matches C x \<Longrightarrow> accepts (LazyStar C # r) xs \<Longrightarrow> accepts (LazyStar C # r) (x # xs)"
| acc_Open: "accepts r s \<Longrightarrow> accepts (Open # r) s"
| acc_Close: "accepts r s \<Longrightarrow> accepts (Close # r) s"
| acc_Alt1: "accepts (a @ r) s \<Longrightarrow> accepts (Alt a b # r) s"
| acc_Alt2: "accepts (b @ r) s \<Longrightarrow> accepts (Alt a b # r) s"
| acc_Eos: "accepts r [] \<Longrightarrow> accepts (Eos # r) []"

text \<open>
  What the parser looks for, stated on the text: two strings have the same letters when
  they agree up to the case of ASCII letters; a final label is \<^verbatim>\<open>Final Response:\<close>
  followed by at least one more unit; the action labels are \<^verbatim>\<open>Action:\<close>, white
  space, a non-empty tool name without a line feed, a line feed, \<^verbatim>\<open>Action Input:\<close>
  and at least one more unit.
\<close>

definition same_letters :: "js_string \<Rightarrow> js_string \<Rightarrow> bool" where
  "same_letters a b = (map canonicalize a = map canonicalize b)"

definition has_final_label :: "js_string \<Rightarrow> bool" where
  "has_final_label t =
     (\<exists>pre l post. t = pre @ l @ post \<and> same_letters l (js ''Final Response:'') \<and> post \<noteq> [])"

definition has_action_labels :: "js_string \<Rightarrow> bool" where
  "has_action_labels t =
     (\<exists>pre l1 ws name l2 post.
        t = pre @ l1 @ ws @ name @ [10] @ l2 @ post \<and>
        same_letters l1 (js ''Action:'') \<and> list_all isWhiteSpace ws \<and>
        name \<noteq> [] \<and> 10 \<notin> set name \<and>
        same_letters l2 (js ''Action Input:'') \<and> post \<noteq> [])"




section \<open>Path confinement\<close>

lemma startsWith_prefix: "startsWith s p = prefix p s"
  unfolding startsWith_def by (metis append_eq_conv_conj prefix_def take_is_prefix)

lemma split_from_append:
  "split_from d seg (a @ d # b) = split_from d seg a @ split_from d [] b"
  by (induction a arbitrary: seg) auto

lemma split_from_notin: "d \<notin> set a \<Longrightarrow> split_from d seg a = [seg @ a]"
  by (induction a arbitrary: seg) auto

lemma split_from_no_sep:
  "s \<in> set (split_from d seg xs) \<Longrightarrow> d \<notin> set seg \<Longrightarrow> d \<notin> set s"
proof (induction xs arbitrary: seg)
  case Nil then show ?case by simp
next
  case (Cons c cs)
  show ?case
  proof (cases "c = d")
    case True
    then have "s = seg \<or> s \<in> set (split_from d [] cs)" using Cons.prems(1) by simp
    then show ?thesis using Cons.prems(2) Cons.IH [of "[]"] by auto
  next
    case False
    then have "s \<in> set (split_from d (seg @ [c]) cs)" using Cons.prems(1) by simp
    moreover have "d \<notin> set (seg @ [c])" using False Cons.prems(2) by simp
    ultimately show ?thesis by (rule Cons.IH)
  qed
qed

lemma split_on_no_sep: "s \<in> set (split_on d xs) \<Longrightarrow> d \<notin> set s"
  unfolding split_on_def by (erule split_from_no_sep) simp

lemma split_on_append: "split_on d (a @ d # b) = split_on d a @ split_on d b"
  unfolding split_on_def by (rule split_from_append)

lemma split_on_notin: "d \<notin> set a \<Longrightarrow> split_on d a = [a]"
  unfolding split_on_def by (simp add: split_from_notin)

lemma split_on_Nil: "split_on d [] = [[]]"
  by (simp add: split_on_def)

lemma split_on_sep_Cons: "split_on d (d # b) = [] # split_on d b"
  by (simp add: split_on_def)

lemma split_join: "T \<noteq> [] \<Longrightarrow> \<forall>s\<in>set T. d \<notin> set s \<Longrightarrow> split_on d (join_with [d] T) = T"
proof (induction "[d]" T rule: join_with.induct)
  case 1 then show ?case by simp
next
  case (2 x) then show ?case by (simp add: split_on_notin)
next
  case (3 x y ys)
  then show ?case by (simp add: split_on_append split_on_notin)
qed

lemma join_with_append:
  "R \<noteq> [] \<Longrightarrow> M \<noteq> [] \<Longrightarrow> join_with sep (R @ M) = join_with sep R @ sep @ join_with sep M"
proof (induction sep R rule: join_with.induct)
  case (1 sep) then show ?case by simp
next
  case (2 sep x)
  then obtain m ms where "M = m # ms" by (cases M) auto
  then show ?case by simp
next
  case (3 sep x y ys)
  then show ?case by simp
qed

lemma join_with_nonempty: "T \<noteq> [] \<Longrightarrow> \<forall>s\<in>set T. s \<noteq> [] \<Longrightarrow> join_with sep T \<noteq> []"
  by (induction sep T rule: join_with.induct) auto

lemma normalize_append: "normalize_segments acc (xs @ ys) = normalize_segments (normalize_segments acc xs) ys"
  by (induction xs arbitrary: acc) auto

lemma normalize_clean_id: "\<forall>s\<in>set R. clean s \<Longrightarrow> normalize_segments acc R = acc @ R"
  by (induction R arbitrary: acc) (auto simp: clean_def)

lemma normalize_clean:
  assumes "\<forall>s\<in>set acc. clean s" and "\<forall>s\<in>set ss. path_sep \<notin> set s"
  shows "\<forall>s\<in>set (normalize_segments acc ss). clean s"
  using assms
proof (induction ss arbitrary: acc)
  case Nil then show ?case by simp
next
  case (Cons s ss)
  have rest: "\<forall>x\<in>set ss. path_sep \<notin> set x" and here: "path_sep \<notin> set s"
    using Cons.prems(2) by simp_all
  show ?case
  proof (cases "s = [] \<or> s = js ''.''")
    case True
    then have "normalize_segments acc (s # ss) = normalize_segments acc ss" by simp
    then show ?thesis using Cons.IH [OF Cons.prems(1) rest] by simp
  next
    case False
    show ?thesis
    proof (cases "s = js ''..''")
      case True
      have b: "\<forall>x\<in>set (butlast acc). clean x" using Cons.prems(1) by (meson in_set_butlastD)
      have "normalize_segments acc (s # ss) = normalize_segments (butlast acc) ss"
        using True False by simp
      then show ?thesis using Cons.IH [OF b rest] by simp
    next
      case nd: False
      have c: "\<forall>x\<in>set (acc @ [s]). clean x"
        using Cons.prems(1) False nd here by (simp add: clean_def)
      have "normalize_segments acc (s # ss) = normalize_segments (acc @ [s]) ss"
        using nd False by simp
      then show ?thesis using Cons.IH [OF c rest] by simp
    qed
  qed
qed

lemma resolve_segments_clean: "\<forall>s\<in>set (resolve_segments pcwd paths). clean s"
  unfolding resolve_segments_def by (rule normalize_clean) (auto dest: split_on_no_sep)

lemma prefixed_candidate_dot:
  "\<exists>rest. prefixed_candidate P = 46 # rest"
proof -
  have "startsWith n (js ''.'') \<Longrightarrow> \<exists>rest. n = 46 # rest" for n
    by (cases n) (auto simp: startsWith_def js_def)
  then show ?thesis
    unfolding prefixed_candidate_def Let_def by (auto simp: js_def)
qed

lemma split_root:
  assumes "\<forall>s\<in>set R. clean s"
  shows "normalize_segments [] (split_on path_sep (path_sep # join_with [path_sep] R) @ X) = normalize_segments R X"
proof (cases "R = []")
  case True then show ?thesis by (simp add: split_on_sep_Cons split_on_Nil)
next
  case False
  have "\<forall>s\<in>set R. path_sep \<notin> set s" using assms by (simp add: clean_def)
  then have "split_on path_sep (join_with [path_sep] R) = R" using False by (simp add: split_join)
  then have "split_on path_sep (path_sep # join_with [path_sep] R) = [] # R"
    by (simp add: split_on_sep_Cons)
  then show ?thesis using assms by (simp add: normalize_append normalize_clean_id)
qed

lemma target_segments:
  "resolve_segments pcwd [path_resolve pcwd [c], prefixed_candidate P] =
   normalize_segments (resolve_segments pcwd [c]) (split_on path_sep (prefixed_candidate P))"
proof -
  obtain rest where p: "prefixed_candidate P = 46 # rest" using prefixed_candidate_dot by blast
  define R where "R = resolve_segments pcwd [c]"
  define root where "root = path_sep # join_with [path_sep] R"
  have cl: "\<forall>s\<in>set R. clean s" unfolding R_def by (rule resolve_segments_clean)
  have loop: "resolve_loop (rev [root, prefixed_candidate P] @ [pcwd]) [] = root @ path_sep # (prefixed_candidate P @ [path_sep])"
    by (simp add: p root_def path_sep_def)
  have "split_on path_sep (root @ path_sep # (prefixed_candidate P @ [path_sep]))
        = split_on path_sep root @ split_on path_sep (prefixed_candidate P) @ [[]]"
    by (simp add: split_on_append split_on_Nil)
  then have "resolve_segments pcwd [root, prefixed_candidate P] =
        normalize_segments [] (split_on path_sep root @ (split_on path_sep (prefixed_candidate P) @ [[]]))"
    unfolding resolve_segments_def loop by simp
  also have "\<dots> = normalize_segments R (split_on path_sep (prefixed_candidate P) @ [[]])"
    unfolding root_def by (rule split_root [OF cl])
  also have "\<dots> = normalize_segments R (split_on path_sep (prefixed_candidate P))"
    by (simp add: normalize_append)
  finally show ?thesis by (simp add: root_def R_def path_resolve_def)
qed

lemma within_iff:
  assumes R: "\<forall>s\<in>set R. clean s" and T: "\<forall>s\<in>set T. clean s" and ne: "R \<noteq> []"
  shows "(path_sep # join_with [path_sep] T = path_sep # join_with [path_sep] R \<or>
          startsWith (path_sep # join_with [path_sep] T) ((path_sep # join_with [path_sep] R) @ [path_sep]))
         = prefix R T"
proof
  assume "prefix R T"
  then obtain M where M: "T = R @ M" by (auto simp: prefix_def)
  show "path_sep # join_with [path_sep] T = path_sep # join_with [path_sep] R \<or>
          startsWith (path_sep # join_with [path_sep] T) ((path_sep # join_with [path_sep] R) @ [path_sep])"
  proof (cases "M = []")
    case True then show ?thesis using M by simp
  next
    case False
    then show ?thesis using M ne by (simp add: join_with_append startsWith_prefix)
  qed
next
  assume a: "path_sep # join_with [path_sep] T = path_sep # join_with [path_sep] R \<or>
          startsWith (path_sep # join_with [path_sep] T) ((path_sep # join_with [path_sep] R) @ [path_sep])"
  have Rn: "\<forall>s\<in>set R. s \<noteq> []" and Rs: "\<forall>s\<in>set R. path_sep \<notin> set s"
    and Ts: "\<forall>s\<in>set T. path_sep \<notin> set s"
    using R T by (simp_all add: clean_def)
  have jr: "join_with [path_sep] R \<noteq> []" using ne Rn by (rule join_with_nonempty)
  have "\<exists>rest. join_with [path_sep] T = join_with [path_sep] R @ rest \<and>
          (rest = [] \<or> (\<exists>r. rest = path_sep # r))"
    using a
  proof
    assume "path_sep # join_with [path_sep] T = path_sep # join_with [path_sep] R"
    then show ?thesis by simp
  next
    assume "startsWith (path_sep # join_with [path_sep] T) ((path_sep # join_with [path_sep] R) @ [path_sep])"
    then obtain zs where "path_sep # join_with [path_sep] T = ((path_sep # join_with [path_sep] R) @ [path_sep]) @ zs"
      unfolding startsWith_prefix prefix_def by blast
    then have "join_with [path_sep] T = join_with [path_sep] R @ path_sep # zs" by simp
    then show ?thesis by blast
  qed
  then obtain rest where eq: "join_with [path_sep] T = join_with [path_sep] R @ rest"
    and rest: "rest = [] \<or> (\<exists>r. rest = path_sep # r)"
    by blast
  have Tne: "T \<noteq> []" using eq jr by auto
  have sT: "split_on path_sep (join_with [path_sep] T) = T" using Tne Ts by (rule split_join)
  have sR: "split_on path_sep (join_with [path_sep] R) = R" using ne Rs by (rule split_join)
  from rest show "prefix R T"
  proof
    assume "rest = []"
    with eq have "join_with [path_sep] T = join_with [path_sep] R" by simp
    with sT sR have "T = R" by metis
    then show ?thesis by simp
  next
    assume "\<exists>r. rest = path_sep # r"
    then obtain r where "rest = path_sep # r" by blast
    with eq have "join_with [path_sep] T = join_with [path_sep] R @ path_sep # r" by simp
    then have "split_on path_sep (join_with [path_sep] T) =
               split_on path_sep (join_with [path_sep] R) @ split_on path_sep r"
      by (simp only: split_on_append)
    then have "T = R @ split_on path_sep r" by (simp only: sT sR)
    then show ?thesis by simp
  qed
qed


lemmas path_eval =
  resolveRepoPath_def path_resolve_def resolve_segments_def prefixed_candidate_def trim_def
  isWhiteSpace_def startsWith_def js_def path_sep_def demo_host_def demo_ctx_def Let_def
  split_on_def AccessViolation_def Error_def

text \<open>
  C1, as the code has it. For a root other than the filesystem root, \<open>resolveRepoPath\<close>
  walks the segments of the candidate (trimmed, and prefixed with \<^verbatim>\<open>./\<close> unless it
  starts with a dot, so that an absolute candidate is read relative to the root) from
  the segments \<open>R\<close> of the root; it returns the absolute path of the segments \<open>T\<close>
  it arrives at exactly when \<open>T\<close> is \<open>R\<close> or continues \<open>R\<close> segment by segment,
  and fails with \<open>AccessViolation\<close> otherwise.
\<close>

theorem resolveRepoPath_confinement:
  assumes "resolve_segments (process_cwd h) [cwd ctx] \<noteq> []"
  shows "resolveRepoPath h P ctx =
     (let R = resolve_segments (process_cwd h) [cwd ctx];
          T = normalize_segments R (split_on path_sep (prefixed_candidate P))
      in if prefix R T then Inr (path_sep # join_with [path_sep] T) else Inl AccessViolation)"
proof -
  define R where "R = resolve_segments (process_cwd h) [cwd ctx]"
  define T where "T = normalize_segments R (split_on path_sep (prefixed_candidate P))"
  have cR: "\<forall>s\<in>set R. clean s" unfolding R_def by (rule resolve_segments_clean)
  have cT: "\<forall>s\<in>set T. clean s"
    unfolding T_def using cR by (rule normalize_clean) (auto dest: split_on_no_sep)
  have tgt: "resolve_segments (process_cwd h)
               [path_resolve (process_cwd h) [cwd ctx], prefixed_candidate P] = T"
    unfolding T_def R_def by (rule target_segments)
  have ne: "R \<noteq> []" using assms R_def by simp
  have "resolveRepoPath h P ctx =
      (if \<not> (path_sep # join_with [path_sep] T = path_sep # join_with [path_sep] R \<or>
          startsWith (path_sep # join_with [path_sep] T)
            ((path_sep # join_with [path_sep] R) @ [path_sep]))
       then Inl AccessViolation else Inr (path_sep # join_with [path_sep] T))"
    unfolding resolveRepoPath_def Let_def
    by (simp only: path_resolve_def [of _ "[_, _]"] tgt de_Morgan_disj)
       (simp add: path_resolve_def R_def)
  also have "\<dots> = (if prefix R T then Inr (path_sep # join_with [path_sep] T)
                     else Inl AccessViolation)"
    unfolding within_iff [OF cR cT ne] by simp
  finally show ?thesis unfolding Let_def T_def R_def .
qed

theorem resolveRepoPath_confinement_witness:
  "resolve_segments (process_cwd demo_host) [cwd demo_ctx] \<noteq> [] \<and>
   resolveRepoPath demo_host (js ''src/../a.txt'') demo_ctx = Inr (js ''/repo/a.txt'') \<and>
   resolveRepoPath demo_host (js ''../repo-evil/a.txt'') demo_ctx = Inl AccessViolation"
proof -
  have ne: "resolve_segments (process_cwd demo_host) [cwd demo_ctx] \<noteq> []"
    by (simp add: path_eval)
  show ?thesis
    using ne resolveRepoPath_confinement [OF ne, of "js ''src/../a.txt''"]
      resolveRepoPath_confinement [OF ne, of "js ''../repo-evil/a.txt''"]
    by (simp add: path_eval)
qed

text \<open>
  C1 as the specification states it fails: the absolute candidate \<^verbatim>\<open>/etc/passwd\<close>,
  a path outside the root \<^verbatim>\<open>/repo\<close>, is not refused; it is read relative to the
  root.
\<close>

theorem resolveRepoPath_absolute_counterexample:
  "resolveRepoPath demo_host (js ''/etc/passwd'') demo_ctx = Inr (js ''/repo/etc/passwd'') \<and>
   resolveRepoPath demo_host (js ''/etc/passwd'') demo_ctx \<noteq> Inl AccessViolation"
  by (simp add: path_eval)

section \<open>The response parser\<close>

inductive_simps accepts_Lit: "accepts (Lit c # r) s"
inductive_simps accepts_One: "accepts (One C # r) s"
inductive_simps accepts_Open: "accepts (Open # r) s"
inductive_simps accepts_Close: "accepts (Close # r) s"
inductive_simps accepts_Alt: "accepts (Alt a b # r) s"
inductive_simps accepts_Eos: "accepts (Eos # r) s"
inductive_simps accepts_Star_Nil: "accepts (Star C # r) []"
inductive_simps accepts_Star_Cons: "accepts (Star C # r) (x # xs)"
inductive_simps accepts_Lazy_Nil: "accepts (LazyStar C # r) []"
inductive_simps accepts_Lazy_Cons: "accepts (LazyStar C # r) (x # xs)"

lemma rx_match_sound: "rx_match r s st = Some caps \<Longrightarrow> accepts r s"
proof (induction r s st arbitrary: caps rule: rx_match.induct)
  case (7 C r x xs st)
  then show ?case
    by (auto split: if_splits option.splits intro: accepts.intros)
next
  case (9 C r x xs st)
  then show ?case
    by (auto split: if_splits option.splits intro: accepts.intros)
next
  case (12 a b r s st)
  then show ?case
    by (auto split: if_splits option.splits intro: accepts.intros)
qed (auto split: if_splits intro: accepts.intros)

lemma rx_match_complete: "accepts r s \<Longrightarrow> rx_match r s st \<noteq> None"
proof (induction r s arbitrary: st rule: accepts.induct)
  case (acc_Star_stop r s C)
  show ?case
  proof (cases s)
    case Nil then show ?thesis using acc_Star_stop.IH [of st] by auto
  next
    case (Cons x xs)
    then show ?thesis using acc_Star_stop.IH [of st] by (auto split: option.splits)
  qed
next
  case (acc_Star_more C x r xs)
  show ?case using acc_Star_more.hyps(1) acc_Star_more.IH [of "consume x st"]
    by (auto split: option.splits)
next
  case (acc_Lazy_stop r s C)
  show ?case
  proof (cases s)
    case Nil then show ?thesis using acc_Lazy_stop.IH [of st] by auto
  next
    case (Cons x xs)
    then show ?thesis using acc_Lazy_stop.IH [of st] by (auto split: option.splits)
  qed
next
  case (acc_Lazy_more C x r xs)
  show ?case using acc_Lazy_more.hyps(1) acc_Lazy_more.IH [of "consume x st"]
    by (auto split: option.splits)
next
  case (acc_Alt1 a r s b)
  show ?case using acc_Alt1.IH [of st] by (auto split: option.splits)
next
  case (acc_Alt2 b r s a)
  show ?case using acc_Alt2.IH [of st] by (auto split: option.splits)
qed simp_all

lemma rx_match_accepts: "(rx_match r s st \<noteq> None) = accepts r s"
  using rx_match_sound rx_match_complete by blast

lemma rx_search_accepts:
  "(rx_search r s \<noteq> None) = (\<exists>pre post. s = pre @ post \<and> accepts r post)"
proof (induction s)
  case Nil
  show ?case using rx_match_accepts [of r "[]" "([], None)"] by simp
next
  case (Cons x xs)
  have "(rx_search r (x # xs) \<noteq> None) = (accepts r (x # xs) \<or> rx_search r xs \<noteq> None)"
    using rx_match_accepts [of r "x # xs" "([], None)"] by (auto split: option.splits)
  also have "\<dots> = (accepts r (x # xs) \<or> (\<exists>pre post. xs = pre @ post \<and> accepts r post))"
    using Cons by simp
  also have "\<dots> = (\<exists>pre post. x # xs = pre @ post \<and> accepts r post)"
  proof
    assume "accepts r (x # xs) \<or> (\<exists>pre post. xs = pre @ post \<and> accepts r post)"
    then show "\<exists>pre post. x # xs = pre @ post \<and> accepts r post"
    proof
      assume "accepts r (x # xs)"
      then have "x # xs = [] @ (x # xs) \<and> accepts r (x # xs)" by simp
      then show ?thesis by blast
    next
      assume "\<exists>pre post. xs = pre @ post \<and> accepts r post"
      then obtain pre post where "xs = pre @ post" "accepts r post" by blast
      then have "x # xs = (x # pre) @ post \<and> accepts r post" by simp
      then show ?thesis by blast
    qed
  next
    assume "\<exists>pre post. x # xs = pre @ post \<and> accepts r post"
    then obtain pre post where p: "x # xs = pre @ post" "accepts r post" by blast
    show "accepts r (x # xs) \<or> (\<exists>pre post. xs = pre @ post \<and> accepts r post)"
    proof (cases pre)
      case Nil then show ?thesis using p by simp
    next
      case (Cons y ys)
      then have "xs = ys @ post" using p by simp
      then show ?thesis using p(2) by blast
    qed
  qed
  finally show ?case .
qed


lemma accepts_lits:
  "accepts (map Lit w @ r) s = (\<exists>l rest. s = l @ rest \<and> same_letters l w \<and> accepts r rest)"
proof (induction w arbitrary: s)
  case Nil
  show ?case by (simp add: same_letters_def)
next
  case (Cons c w)
  show ?case
  proof
    assume "accepts (map Lit (c # w) @ r) s"
    then obtain x xs where s: "s = x # xs" and c: "canonicalize x = canonicalize c"
      and a: "accepts (map Lit w @ r) xs"
      by (auto simp: accepts_Lit)
    from a obtain l rest where "xs = l @ rest" "same_letters l w" "accepts r rest"
      using Cons.IH by blast
    then have "s = (x # l) @ rest \<and> same_letters (x # l) (c # w) \<and> accepts r rest"
      using s c by (simp add: same_letters_def)
    then show "\<exists>l rest. s = l @ rest \<and> same_letters l (c # w) \<and> accepts r rest" by blast
  next
    assume "\<exists>l rest. s = l @ rest \<and> same_letters l (c # w) \<and> accepts r rest"
    then obtain l rest where s: "s = l @ rest" and l: "same_letters l (c # w)" and a: "accepts r rest"
      by blast
    from l obtain x l' where l': "l = x # l'" "canonicalize x = canonicalize c" "same_letters l' w"
      by (cases l) (auto simp: same_letters_def)
    have "accepts (map Lit w @ r) (l' @ rest)" using Cons.IH l'(3) a by blast
    then show "accepts (map Lit (c # w) @ r) s" using s l' by (simp add: accepts_Lit)
  qed
qed

lemma accepts_Star_split:
  "accepts (Star C # r) s \<Longrightarrow> \<exists>u v. s = u @ v \<and> list_all (class_matches C) u \<and> accepts r v"
proof (induction s)
  case Nil
  then have "[] = [] @ [] \<and> list_all (class_matches C) [] \<and> accepts r []"
    by (simp add: accepts_Star_Nil)
  then show ?case by iprover
next
  case (Cons x xs)
  from Cons.prems have "accepts r (x # xs) \<or> (class_matches C x \<and> accepts (Star C # r) xs)"
    by (simp add: accepts_Star_Cons)
  then show ?case
  proof
    assume "accepts r (x # xs)"
    then have "x # xs = [] @ (x # xs) \<and> list_all (class_matches C) [] \<and> accepts r (x # xs)"
      by simp
    then show ?thesis by iprover
  next
    assume h: "class_matches C x \<and> accepts (Star C # r) xs"
    then have "\<exists>u v. xs = u @ v \<and> list_all (class_matches C) u \<and> accepts r v"
      using Cons.IH by simp
    then obtain u v where "xs = u @ v" "list_all (class_matches C) u" "accepts r v"
      by iprover
    then have "x # xs = (x # u) @ v \<and> list_all (class_matches C) (x # u) \<and> accepts r v"
      using h by simp
    then show ?thesis by iprover
  qed
qed

lemma accepts_Star_join:
  "list_all (class_matches C) u \<Longrightarrow> accepts r v \<Longrightarrow> accepts (Star C # r) (u @ v)"
  by (induction u) (simp_all add: acc_Star_stop acc_Star_more)

lemma accepts_Star:
  "accepts (Star C # r) s = (\<exists>u v. s = u @ v \<and> list_all (class_matches C) u \<and> accepts r v)"
proof
  show "accepts (Star C # r) s \<Longrightarrow> \<exists>u v. s = u @ v \<and> list_all (class_matches C) u \<and> accepts r v"
    by (rule accepts_Star_split)
next
  assume "\<exists>u v. s = u @ v \<and> list_all (class_matches C) u \<and> accepts r v"
  then obtain u v where s: "s = u @ v" and u: "list_all (class_matches C) u" and v: "accepts r v"
    by iprover
  show "accepts (Star C # r) s" unfolding s using u v by (rule accepts_Star_join)
qed

lemma accepts_tail: "accepts [Open, One AnyUnit, Star AnyUnit, Close] v = (v \<noteq> [])"
proof (cases v)
  case Nil
  then show ?thesis by (simp add: accepts_Open accepts_One)
next
  case (Cons x xs)
  have "accepts [Close] ([] :: js_string)" by (intro accepts.intros)
  then have "accepts (Star AnyUnit # [Close]) (xs @ [])"
    by (intro accepts_Star_join) (simp_all add: list_all_iff)
  then show ?thesis using Cons by (simp add: accepts_Open accepts_One)
qed

lemma accepts_ws_tail:
  "accepts [Star Space, Open, One AnyUnit, Star AnyUnit, Close] rest = (rest \<noteq> [])"
proof
  assume "accepts [Star Space, Open, One AnyUnit, Star AnyUnit, Close] rest"
  then obtain u v where "rest = u @ v" "accepts [Open, One AnyUnit, Star AnyUnit, Close] v"
    unfolding accepts_Star by blast
  then show "rest \<noteq> []" by (simp add: accepts_tail)
next
  assume "rest \<noteq> []"
  then have "accepts [Open, One AnyUnit, Star AnyUnit, Close] rest" by (simp add: accepts_tail)
  then show "accepts [Star Space, Open, One AnyUnit, Star AnyUnit, Close] rest"
    by (rule acc_Star_stop)
qed

lemma final_rx_unfold:
  "final_rx = map Lit (js ''Final Response:'') @ [Star Space, Open, One AnyUnit, Star AnyUnit, Close]"
  by (simp add: final_rx_def lits_def rx_plus_def)

lemma accepts_final_rx:
  "accepts final_rx post =
     (\<exists>l rest. post = l @ rest \<and> same_letters l (js ''Final Response:'') \<and> rest \<noteq> [])"
  unfolding final_rx_unfold accepts_lits accepts_ws_tail ..

lemma final_search: "(rx_search final_rx t \<noteq> None) = has_final_label t"
proof -
  have "(rx_search final_rx t \<noteq> None) =
        (\<exists>pre post. t = pre @ post \<and>
           (\<exists>l rest. post = l @ rest \<and> same_letters l (js ''Final Response:'') \<and> rest \<noteq> []))"
    unfolding rx_search_accepts accepts_final_rx ..
  also have "\<dots> = has_final_label t"
    unfolding has_final_label_def by blast
  finally show ?thesis .
qed


lemma canonicalize_newline: "(canonicalize y = canonicalize 10) = (y = 10)"
  by (auto simp: canonicalize_def)

lemma not_newline_class: "class_matches (NotUnit 10) x = (x \<noteq> 10)"
  by (simp add: canonicalize_newline)

lemma list_all_not_newline: "list_all (class_matches (NotUnit 10)) u = (10 \<notin> set u)"
  by (induction u) (auto simp: canonicalize_newline)

lemma list_all_Space: "list_all (class_matches Space) ws = list_all isWhiteSpace ws"
  by (induction ws) simp_all

lemma action_rx_unfold:
  "action_rx = map Lit (js ''Action:'') @
     (Star Space # [Open, One (NotUnit 10)] @
        (Star (NotUnit 10) # [Close, Lit 10] @
           (map Lit (js ''Action Input:'') @ [Star Space, Open, One AnyUnit, Star AnyUnit, Close])))"
  by (simp add: action_rx_def lits_def rx_plus_def)

lemma accepts_name:
  "accepts ([Open, One (NotUnit 10)] @ (Star (NotUnit 10) # [Close, Lit 10] @ X)) v =
     (\<exists>name w. v = name @ 10 # w \<and> name \<noteq> [] \<and> 10 \<notin> set name \<and> accepts X w)"
proof
  assume "accepts ([Open, One (NotUnit 10)] @ (Star (NotUnit 10) # [Close, Lit 10] @ X)) v"
  then obtain x v' where v: "v = x # v'" and x: "x \<noteq> 10"
    and a: "accepts (Star (NotUnit 10) # ([Close, Lit 10] @ X)) v'"
    by (auto simp: accepts_Open accepts_One canonicalize_newline)
  from a obtain u w where v': "v' = u @ w" and u: "10 \<notin> set u"
    and b: "accepts ([Close, Lit 10] @ X) w"
    unfolding accepts_Star list_all_not_newline by iprover
  from b obtain w' where w: "w = 10 # w'" and c: "accepts X w'"
    by (auto simp: accepts_Close accepts_Lit canonicalize_newline)
  have "v = (x # u) @ 10 # w' \<and> x # u \<noteq> [] \<and> 10 \<notin> set (x # u) \<and> accepts X w'"
    using v v' w x u c by simp
  then show "\<exists>name w. v = name @ 10 # w \<and> name \<noteq> [] \<and> 10 \<notin> set name \<and> accepts X w"
    by iprover
next
  assume "\<exists>name w. v = name @ 10 # w \<and> name \<noteq> [] \<and> 10 \<notin> set name \<and> accepts X w"
  then obtain name w where v: "v = name @ 10 # w" and n: "name \<noteq> []" "10 \<notin> set name"
    and c: "accepts X w"
    by iprover
  from n obtain x u where name: "name = x # u" and x: "x \<noteq> 10" and u: "10 \<notin> set u"
    by (cases name) auto
  have "accepts ([Close, Lit 10] @ X) (10 # w)"
    using c by (simp add: accepts_Close accepts_Lit)
  then have "accepts (Star (NotUnit 10) # ([Close, Lit 10] @ X)) (u @ 10 # w)"
    using u by (intro accepts_Star_join) (simp_all add: list_all_not_newline)
  then show "accepts ([Open, One (NotUnit 10)] @ (Star (NotUnit 10) # [Close, Lit 10] @ X)) v"
    using v name x by (simp add: accepts_Open accepts_One canonicalize_newline)
qed

lemma accepts_action_rx:
  "accepts action_rx post =
     (\<exists>l1 ws name l2 r2. post = l1 @ ws @ name @ [10] @ l2 @ r2 \<and>
        same_letters l1 (js ''Action:'') \<and> list_all isWhiteSpace ws \<and>
        name \<noteq> [] \<and> 10 \<notin> set name \<and>
        same_letters l2 (js ''Action Input:'') \<and> r2 \<noteq> [])"
proof -
  have "accepts action_rx post =
     (\<exists>l1 rest. post = l1 @ rest \<and> same_letters l1 (js ''Action:'') \<and>
        (\<exists>ws v. rest = ws @ v \<and> list_all isWhiteSpace ws \<and>
          (\<exists>name w. v = name @ 10 # w \<and> name \<noteq> [] \<and> 10 \<notin> set name \<and>
            (\<exists>l2 r2. w = l2 @ r2 \<and> same_letters l2 (js ''Action Input:'') \<and> r2 \<noteq> []))))"
    unfolding action_rx_unfold accepts_lits [of "js ''Action:''"] accepts_Star list_all_Space
      accepts_name
    unfolding accepts_lits accepts_ws_tail
    by (rule refl)
  also have "\<dots> = (\<exists>l1 ws name l2 r2. post = l1 @ ws @ name @ [10] @ l2 @ r2 \<and>
        same_letters l1 (js ''Action:'') \<and> list_all isWhiteSpace ws \<and>
        name \<noteq> [] \<and> 10 \<notin> set name \<and>
        same_letters l2 (js ''Action Input:'') \<and> r2 \<noteq> [])"
  proof (rule iffI)
    assume "\<exists>l1 rest. post = l1 @ rest \<and> same_letters l1 (js ''Action:'') \<and>
        (\<exists>ws v. rest = ws @ v \<and> list_all isWhiteSpace ws \<and>
          (\<exists>name w. v = name @ 10 # w \<and> name \<noteq> [] \<and> 10 \<notin> set name \<and>
            (\<exists>l2 r2. w = l2 @ r2 \<and> same_letters l2 (js ''Action Input:'') \<and> r2 \<noteq> [])))"
    then obtain l1 rest ws v name w l2 r2 where
      e: "post = l1 @ rest" "rest = ws @ v" "v = name @ 10 # w" "w = l2 @ r2" and
      f: "same_letters l1 (js ''Action:'')" "list_all isWhiteSpace ws" "name \<noteq> []"
         "10 \<notin> set name" "same_letters l2 (js ''Action Input:'')" "r2 \<noteq> []"
      by blast
    have p: "post = l1 @ ws @ name @ [10] @ l2 @ r2" using e by simp
    show "\<exists>l1 ws name l2 r2. post = l1 @ ws @ name @ [10] @ l2 @ r2 \<and>
        same_letters l1 (js ''Action:'') \<and> list_all isWhiteSpace ws \<and>
        name \<noteq> [] \<and> 10 \<notin> set name \<and>
        same_letters l2 (js ''Action Input:'') \<and> r2 \<noteq> []"
      by (rule exI [of _ l1], rule exI [of _ ws], rule exI [of _ name], rule exI [of _ l2],
          rule exI [of _ r2]) (intro conjI p f)
  next
    assume "\<exists>l1 ws name l2 r2. post = l1 @ ws @ name @ [10] @ l2 @ r2 \<and>
        same_letters l1 (js ''Action:'') \<and> list_all isWhiteSpace ws \<and>
        name \<noteq> [] \<and> 10 \<notin> set name \<and>
        same_letters l2 (js ''Action Input:'') \<and> r2 \<noteq> []"
    then obtain l1 ws name l2 r2 where
      e: "post = l1 @ ws @ name @ [10] @ l2 @ r2" and
      f: "same_letters l1 (js ''Action:'')" "list_all isWhiteSpace ws" "name \<noteq> []"
         "10 \<notin> set name" "same_letters l2 (js ''Action Input:'')" "r2 \<noteq> []"
      by blast
    have e1: "post = l1 @ (ws @ (name @ 10 # (l2 @ r2)))" using e by simp
    have A: "\<exists>l2' r2'. l2 @ r2 = l2' @ r2' \<and> same_letters l2' (js ''Action Input:'') \<and> r2' \<noteq> []"
      by (rule exI [of _ l2], rule exI [of _ r2]) (intro conjI refl f)
    have B: "\<exists>name' w. name @ 10 # (l2 @ r2) = name' @ 10 # w \<and> name' \<noteq> [] \<and> 10 \<notin> set name' \<and>
            (\<exists>l2 r2. w = l2 @ r2 \<and> same_letters l2 (js ''Action Input:'') \<and> r2 \<noteq> [])"
      by (rule exI [of _ name], rule exI [of _ "l2 @ r2"]) (intro conjI refl f A)
    have C: "\<exists>ws' v. ws @ (name @ 10 # (l2 @ r2)) = ws' @ v \<and> list_all isWhiteSpace ws' \<and>
          (\<exists>name w. v = name @ 10 # w \<and> name \<noteq> [] \<and> 10 \<notin> set name \<and>
            (\<exists>l2 r2. w = l2 @ r2 \<and> same_letters l2 (js ''Action Input:'') \<and> r2 \<noteq> []))"
      by (rule exI [of _ ws], rule exI [of _ "name @ 10 # (l2 @ r2)"]) (intro conjI refl f B)
    show "\<exists>l1 rest. post = l1 @ rest \<and> same_letters l1 (js ''Action:'') \<and>
        (\<exists>ws v. rest = ws @ v \<and> list_all isWhiteSpace ws \<and>
          (\<exists>name w. v = name @ 10 # w \<and> name \<noteq> [] \<and> 10 \<notin> set name \<and>
            (\<exists>l2 r2. w = l2 @ r2 \<and> same_letters l2 (js ''Action Input:'') \<and> r2 \<noteq> [])))"
      by (rule exI [of _ l1], rule exI [of _ "ws @ (name @ 10 # (l2 @ r2))"]) (intro conjI e1 f C)
  qed
  finally show ?thesis .
qed

lemma action_search: "(rx_search action_rx t \<noteq> None) = has_action_labels t"
proof -
  have "(rx_search action_rx t \<noteq> None) =
        (\<exists>pre post. t = pre @ post \<and>
           (\<exists>l1 ws name l2 r2. post = l1 @ ws @ name @ [10] @ l2 @ r2 \<and>
        same_letters l1 (js ''Action:'') \<and> list_all isWhiteSpace ws \<and>
        name \<noteq> [] \<and> 10 \<notin> set name \<and>
        same_letters l2 (js ''Action Input:'') \<and> r2 \<noteq> []))"
    unfolding rx_search_accepts accepts_action_rx ..
  also have "\<dots> = has_action_labels t"
    unfolding has_action_labels_def by metis
  finally show ?thesis .
qed


lemmas parse_eval =
  parseReactOutput_def extractThought_def thought_rx_def final_rx_def action_rx_def lits_def
  rx_plus_def trim_def isWhiteSpace_def js_def canonicalize_def Let_def
  UnparsableResponse_def Error_def

text \<open>
  C6, as the code has it. On the trimmed text the parser returns \<open>Final\<close> exactly when
  a final label (with at least one unit after it) is present, \<open>Action\<close> exactly when
  no final label is present and the action labels (with a non-empty name on the line of
  \<^verbatim>\<open>Action:\<close> and at least one unit after \<^verbatim>\<open>Action Input:\<close>) are, and fails with
  \<open>UnparsableResponse\<close> exactly when neither is; labels are matched up to case.
\<close>

theorem parseReactOutput_shapes:
  "((\<exists>th out. parseReactOutput t = Inr (Final th out)) = has_final_label (trim t)) \<and>
   ((\<exists>th n i. parseReactOutput t = Inr (Action th n i)) =
      (\<not> has_final_label (trim t) \<and> has_action_labels (trim t))) \<and>
   ((parseReactOutput t = Inl UnparsableResponse) =
      (\<not> has_final_label (trim t) \<and> \<not> has_action_labels (trim t)))"
proof (cases "rx_search final_rx (trim t)")
  case (Some finalMatch)
  then have f: "has_final_label (trim t)" using final_search [of "trim t"] by simp
  have "parseReactOutput t = Inr (Final (extractThought (trim t)) (trim (finalMatch ! 0)))"
    using Some by (simp add: parseReactOutput_def)
  then show ?thesis using f by simp
next
  case None
  then have f: "\<not> has_final_label (trim t)" using final_search [of "trim t"] by simp
  show ?thesis
  proof (cases "rx_search action_rx (trim t)")
    case (Some actionMatch)
    then have a: "has_action_labels (trim t)" using action_search [of "trim t"] by simp
    have "parseReactOutput t =
        Inr (Action (extractThought (trim t)) (trim (actionMatch ! 0)) (trim (actionMatch ! 1)))"
      using None Some by (simp add: parseReactOutput_def)
    then show ?thesis using f a by simp
  next
    case n: None
    then have a: "\<not> has_action_labels (trim t)" using action_search [of "trim t"] by simp
    have "parseReactOutput t = Inl UnparsableResponse"
      using None n by (simp add: parseReactOutput_def)
    then show ?thesis using f a by simp
  qed
qed

theorem parseReactOutput_shapes_witness:
  "parseReactOutput (js ''thought: x\<newline>FINAL response: done'') = Inr (Final (js ''x'') (js ''done'')) \<and>
   has_final_label (trim (js ''thought: x\<newline>FINAL response: done'')) \<and>
   parseReactOutput (js ''Thought: y\<newline>action: read_file\<newline>ACTION INPUT: a.txt'') =
     Inr (Action (js ''y'') (js ''read_file'') (js ''a.txt'')) \<and>
   \<not> has_final_label (trim (js ''Thought: y\<newline>action: read_file\<newline>ACTION INPUT: a.txt'')) \<and>
   has_action_labels (trim (js ''Thought: y\<newline>action: read_file\<newline>ACTION INPUT: a.txt'')) \<and>
   parseReactOutput (js ''I do not know'') = Inl UnparsableResponse \<and>
   \<not> has_final_label (trim (js ''I do not know'')) \<and>
   \<not> has_action_labels (trim (js ''I do not know''))"
proof -
  have 1: "parseReactOutput (js ''thought: x\<newline>FINAL response: done'') =
      Inr (Final (js ''x'') (js ''done''))"
    by (simp add: parse_eval)
  have 2: "parseReactOutput (js ''Thought: y\<newline>action: read_file\<newline>ACTION INPUT: a.txt'') =
     Inr (Action (js ''y'') (js ''read_file'') (js ''a.txt''))"
    by (simp add: parse_eval)
  have 3: "parseReactOutput (js ''I do not know'') = Inl UnparsableResponse"
    by (simp add: parse_eval)
  show ?thesis
    using 1 2 3
      parseReactOutput_shapes [of "js ''thought: x\<newline>FINAL response: done''"]
      parseReactOutput_shapes [of "js ''Thought: y\<newline>action: read_file\<newline>ACTION INPUT: a.txt''"]
      parseReactOutput_shapes [of "js ''I do not know''"]
    by simp
qed

text \<open>
  C6 as the specification states it fails: a reply that ends with the label
  \<^verbatim>\<open>Final Response:\<close> contains the label and is refused, and so is a reply whose
  \<^verbatim>\<open>Action:\<close> line, with nothing on it, is followed at once by
  \<^verbatim>\<open>Action Input:\<close>.
\<close>

theorem parseReactOutput_label_counterexample:
  "js_includes (js ''Thought: done\<newline>Final Response:'') (js ''Final Response:'') \<and>
   parseReactOutput (js ''Thought: done\<newline>Final Response:'') = Inl UnparsableResponse \<and>
   js_includes (js ''Action:\<newline>Action Input: a.txt'') (js ''Action:\<newline>Action Input:'') \<and>
   parseReactOutput (js ''Action:\<newline>Action Input: a.txt'') = Inl UnparsableResponse"
  by (simp add: parse_eval startsWith_def)

section \<open>The agent loop\<close>

lemma agent_loop_exhausted:
  "\<not> turn < agentMaxTurns ag \<Longrightarrow>
   agent_loop ag task ctx turn ths sp w tr =
     (Inr \<lparr> outputText = exhaustedOutput, thoughts = ths \<rparr>, w, tr)"
  by (subst agent_loop.simps) simp

lemma agent_loop_model_error:
  assumes "turn < agentMaxTurns ag"
    and "complete (llm ag) (turnMessages ag task sp) (signal ctx) w = (Inl e, w1)"
  shows "agent_loop ag task ctx turn ths sp w tr =
     (Inl e, w1, tr @ [ModelCall (turnMessages ag task sp) (Inl e)])"
  using assms by (subst agent_loop.simps) (simp add: Let_def)

lemma agent_loop_unparsable:
  assumes "turn < agentMaxTurns ag"
    and "complete (llm ag) (turnMessages ag task sp) (signal ctx) w = (Inr out, w1)"
    and "parseReactOutput out = Inl e"
  shows "agent_loop ag task ctx turn ths sp w tr =
     (Inl e, w1, tr @ [ModelCall (turnMessages ag task sp) (Inr out)])"
  using assms by (subst agent_loop.simps) (simp add: Let_def)

lemma agent_loop_final:
  assumes "turn < agentMaxTurns ag"
    and "complete (llm ag) (turnMessages ag task sp) (signal ctx) w = (Inr out, w1)"
    and "parseReactOutput out = Inr (Final th fr)"
  shows "agent_loop ag task ctx turn ths sp w tr =
     (Inr \<lparr> outputText = fr,
            thoughts = ths @ [\<lparr> thought = th, action = None, observation = None,
                                rawOutput = Some out \<rparr>] \<rparr>,
      w1, tr @ [ModelCall (turnMessages ag task sp) (Inr out)])"
  using assms by (subst agent_loop.simps) (simp add: Let_def)

lemma agent_loop_unknown_tool:
  assumes "turn < agentMaxTurns ag"
    and "complete (llm ag) (turnMessages ag task sp) (signal ctx) w = (Inr out, w1)"
    and "parseReactOutput out = Inr (Action th tn ti)"
    and "toolMap ag tn = None"
  shows "agent_loop ag task ctx turn ths sp w tr =
     (Inl (UnknownTool tn), w1, tr @ [ModelCall (turnMessages ag task sp) (Inr out)])"
  using assms by (subst agent_loop.simps) (simp add: Let_def)

lemma agent_loop_action:
  assumes "turn < agentMaxTurns ag"
    and "complete (llm ag) (turnMessages ag task sp) (signal ctx) w = (Inr out, w1)"
    and "parseReactOutput out = Inr (Action th tn ti)"
    and "toolMap ag tn = Some tool"
    and "execute tool ti ctx w1 = (res, w2)"
    and "observationOf res = Inr obs"
  shows "agent_loop ag task ctx turn ths sp w tr =
     agent_loop ag task ctx (turn + 1)
       (ths @ [\<lparr> thought = th, action = Some \<lparr> toolName = tn, toolInput = ti \<rparr>,
                 observation = Some obs, rawOutput = Some out \<rparr>])
       (nextScratchpad sp (turnScratch th tn ti obs))
       w2
       (tr @ [ModelCall (turnMessages ag task sp) (Inr out), ToolCall tn ti res])"
  using assms by (subst agent_loop.simps) (simp add: Let_def)

lemma agent_loop_catch_throws:
  assumes "turn < agentMaxTurns ag"
    and "complete (llm ag) (turnMessages ag task sp) (signal ctx) w = (Inr out, w1)"
    and "parseReactOutput out = Inr (Action th tn ti)"
    and "toolMap ag tn = Some tool"
    and "execute tool ti ctx w1 = (res, w2)"
    and "observationOf res = Inl err"
  shows "agent_loop ag task ctx turn ths sp w tr =
     (Inl err, w2, tr @ [ModelCall (turnMessages ag task sp) (Inr out), ToolCall tn ti res])"
  using assms by (subst agent_loop.simps) (simp add: Let_def)

lemma loop_turn_cases
  [consumes 1, case_names model_error unparsable final unknown_tool action catch_throws]:
  assumes "turn < agentMaxTurns ag"
  obtains
    e w1 where "complete (llm ag) (turnMessages ag task sp) (signal ctx) w = (Inl e, w1)"
  | out w1 e where "complete (llm ag) (turnMessages ag task sp) (signal ctx) w = (Inr out, w1)"
      "parseReactOutput out = Inl e"
  | out w1 th fr where "complete (llm ag) (turnMessages ag task sp) (signal ctx) w = (Inr out, w1)"
      "parseReactOutput out = Inr (Final th fr)"
  | out w1 th tn ti where "complete (llm ag) (turnMessages ag task sp) (signal ctx) w = (Inr out, w1)"
      "parseReactOutput out = Inr (Action th tn ti)" "toolMap ag tn = None"
  | out w1 th tn ti tool res w2 obs where
      "complete (llm ag) (turnMessages ag task sp) (signal ctx) w = (Inr out, w1)"
      "parseReactOutput out = Inr (Action th tn ti)" "toolMap ag tn = Some tool"
      "execute tool ti ctx w1 = (res, w2)" "observationOf res = Inr obs"
  | out w1 th tn ti tool res w2 err where
      "complete (llm ag) (turnMessages ag task sp) (signal ctx) w = (Inr out, w1)"
      "parseReactOutput out = Inr (Action th tn ti)" "toolMap ag tn = Some tool"
      "execute tool ti ctx w1 = (res, w2)" "observationOf res = Inl err"
proof -
  obtain reply w1 where c: "complete (llm ag) (turnMessages ag task sp) (signal ctx) w = (reply, w1)"
    by (cases "complete (llm ag) (turnMessages ag task sp) (signal ctx) w")
  show thesis
  proof (cases reply)
    case (Inl e)
    then show ?thesis using c that(1) by simp
  next
    case (Inr out)
    show ?thesis
    proof (cases "parseReactOutput out")
      case (Inl e)
      then show ?thesis using c Inr that(2) by simp
    next
      case r: (Inr resp)
      show ?thesis
      proof (cases resp)
        case (Final th fr)
        then show ?thesis using c Inr r that(3) by simp
      next
        case (Action th tn ti)
        show ?thesis
        proof (cases "toolMap ag tn")
          case None
          then show ?thesis using c Inr r Action that(4) by simp
        next
          case (Some tool)
          obtain res w2 where e: "execute tool ti ctx w1 = (res, w2)"
            by (cases "execute tool ti ctx w1")
          show ?thesis
          proof (cases "observationOf res")
            case o: (Inl err)
            show ?thesis using c Inr r Action Some e o that(6) by simp
          next
            case o: (Inr obs)
            show ?thesis using c Inr r Action Some e o that(5) by simp
          qed
        qed
      qed
    qed
  qed
qed


lemma loop_trace_shift:
  "agent_loop ag task ctx turn ths sp w tr =
     (case agent_loop ag task ctx turn ths sp w [] of (res, w', new) \<Rightarrow> (res, w', tr @ new))"
proof (induction "nat (agentMaxTurns ag - turn)" arbitrary: turn ths sp w tr)
  case 0
  then have "\<not> turn < agentMaxTurns ag" by simp
  then show ?case by (simp add: agent_loop_exhausted)
next
  case (Suc n)
  then have lt: "turn < agentMaxTurns ag" by simp
  from lt show ?case
  proof (cases rule: loop_turn_cases [of turn ag task sp ctx w])
    case (model_error e w1)
    then show ?thesis using lt by (simp add: agent_loop_model_error)
  next
    case (unparsable out w1 e)
    then show ?thesis using lt by (simp add: agent_loop_unparsable)
  next
    case (final out w1 th fr)
    then show ?thesis using lt by (simp add: agent_loop_final)
  next
    case (unknown_tool out w1 th tn ti)
    then show ?thesis using lt by (simp add: agent_loop_unknown_tool)
  next
    case (action out w1 th tn ti tool res w2 obs)
    have n: "n = nat (agentMaxTurns ag - (turn + 1))" using Suc.hyps(2) by simp
    note step = agent_loop_action [OF lt action]
    show ?thesis
      unfolding step [of ths tr] step [of ths "[]"]
      by (subst Suc.hyps(1) [OF n], subst (2) Suc.hyps(1) [OF n]) (simp split: prod.splits)
  next
    case (catch_throws out w1 th tn ti tool res w2 err)
    show ?thesis
      unfolding agent_loop_catch_throws [OF lt catch_throws] by simp
  qed
qed


lemma loop_action_split:
  assumes lt: "turn < agentMaxTurns ag"
    and c: "complete (llm ag) (turnMessages ag task sp) (signal ctx) w = (Inr out, w1)"
    and p: "parseReactOutput out = Inr (Action th tn ti)"
    and t: "toolMap ag tn = Some tool"
    and e: "execute tool ti ctx w1 = (res, w2)"
    and o: "observationOf res = Inr obs"
    and r: "agent_loop ag task ctx turn ths sp w [] = (result, w', new)"
  obtains new' where
    "agent_loop ag task ctx (turn + 1)
       (ths @ [\<lparr> thought = th, action = Some \<lparr> toolName = tn, toolInput = ti \<rparr>,
                 observation = Some obs, rawOutput = Some out \<rparr>])
       (nextScratchpad sp (turnScratch th tn ti obs)) w2 [] = (result, w', new')"
    "new = ModelCall (turnMessages ag task sp) (Inr out) # ToolCall tn ti res # new'"
proof -
  let ?next = "agent_loop ag task ctx (turn + 1)
       (ths @ [\<lparr> thought = th, action = Some \<lparr> toolName = tn, toolInput = ti \<rparr>,
                 observation = Some obs, rawOutput = Some out \<rparr>])
       (nextScratchpad sp (turnScratch th tn ti obs)) w2"
  obtain r0 w0 n0 where n: "?next [] = (r0, w0, n0)" by (cases "?next []") auto
  have "agent_loop ag task ctx turn ths sp w [] =
        ?next ([] @ [ModelCall (turnMessages ag task sp) (Inr out), ToolCall tn ti res])"
    by (rule agent_loop_action [OF lt c p t e o])
  also have "\<dots> = (r0, w0, [ModelCall (turnMessages ag task sp) (Inr out), ToolCall tn ti res] @ n0)"
    by (subst loop_trace_shift) (simp add: n)
  finally have "result = r0" "w' = w0"
    "new = ModelCall (turnMessages ag task sp) (Inr out) # ToolCall tn ti res # n0"
    using r by simp_all
  then show thesis using n that by simp
qed

lemma loop_unknown_tool_last:
  assumes "agent_loop ag task ctx turn ths sp w [] = (result, w', new)"
    and "new = pre @ ModelCall msgs (Inr out) # post"
    and "parseReactOutput out = Inr (Action th tn ti)"
    and "toolMap ag tn = None"
  shows "result = Inl (UnknownTool tn) \<and> post = []"
  using assms(1,2)
proof (induction "nat (agentMaxTurns ag - turn)" arbitrary: turn ths sp w new pre)
  case 0
  then have "\<not> turn < agentMaxTurns ag" by simp
  then have "new = []" using "0.prems"(1) by (simp add: agent_loop_exhausted)
  then show ?case using "0.prems"(2) by simp
next
  case (Suc n)
  then have lt: "turn < agentMaxTurns ag" by simp
  note r = Suc.prems(1) and d = Suc.prems(2)
  from lt show ?case
  proof (cases rule: loop_turn_cases [of turn ag task sp ctx w])
    case (model_error e w1)
    then have "new = [ModelCall (turnMessages ag task sp) (Inl e)]"
      using lt r by (simp add: agent_loop_model_error)
    then show ?thesis using d by (cases pre) auto
  next
    case (unparsable o1 w1 e)
    then have "new = [ModelCall (turnMessages ag task sp) (Inr o1)]"
      using lt r by (simp add: agent_loop_unparsable)
    then have "o1 = out" using d by (cases pre) auto
    then show ?thesis using unparsable(2) assms(3) by simp
  next
    case (final o1 w1 th1 fr)
    then have "new = [ModelCall (turnMessages ag task sp) (Inr o1)]"
      using lt r by (simp add: agent_loop_final)
    then have "o1 = out" using d by (cases pre) auto
    then show ?thesis using final(2) assms(3) by simp
  next
    case (unknown_tool o1 w1 th1 tn1 ti1)
    then have n: "new = [ModelCall (turnMessages ag task sp) (Inr o1)]"
      and res: "result = Inl (UnknownTool tn1)"
      using lt r by (simp_all add: agent_loop_unknown_tool)
    from n d have "o1 = out" "post = []" by (cases pre; auto)+
    then show ?thesis using res unknown_tool(2) assms(3) by simp
  next
    case (action o1 w1 th1 tn1 ti1 tool res w2 obs)
    from lt action r obtain new' where
      nx: "agent_loop ag task ctx (turn + 1)
         (ths @ [\<lparr> thought = th1, action = Some \<lparr> toolName = tn1, toolInput = ti1 \<rparr>,
                   observation = Some obs, rawOutput = Some o1 \<rparr>])
         (nextScratchpad sp (turnScratch th1 tn1 ti1 obs)) w2 [] = (result, w', new')"
      and nw: "new = ModelCall (turnMessages ag task sp) (Inr o1) # ToolCall tn1 ti1 res # new'"
      by (rule loop_action_split)
    have n: "n = nat (agentMaxTurns ag - (turn + 1))" using Suc.hyps(2) by simp
    show ?thesis
    proof (cases pre)
      case Nil
      then have "o1 = out" using nw d by simp
      then show ?thesis using action(2,3) assms(3,4) by simp
    next
      case (Cons a pre1)
      show ?thesis
      proof (cases pre1)
        case Nil
        then show ?thesis using Cons nw d by simp
      next
        case c2: (Cons b pre2)
        then have "new' = pre2 @ ModelCall msgs (Inr out) # post" using Cons nw d by simp
        then show ?thesis by (rule Suc.hyps(1) [OF n nx])
      qed
    qed
  next
    case (catch_throws o1 w1 th1 tn1 ti1 tool res w2 err)
    have nw: "new = [ModelCall (turnMessages ag task sp) (Inr o1), ToolCall tn1 ti1 res]"
      using r unfolding agent_loop_catch_throws [OF lt catch_throws] by simp
    show ?thesis
    proof (cases pre)
      case Nil
      then have "o1 = out" using nw d by simp
      then show ?thesis using catch_throws(2,3) assms(3,4) by simp
    next
      case (Cons a pre1)
      then show ?thesis using nw d by (cases pre1) auto
    qed
  qed
qed


lemma observationOf_message:
  "\<not> nullish_rejection res \<Longrightarrow> \<exists>obs. observationOf res = Inr obs"
  by (auto simp: nullish_rejection_def observationOf_def failedObservation_def
      split: sum.splits js_error.splits)

lemma loop_all_registered:
  assumes "agent_loop ag task ctx turn ths sp w [] = (result, w', new)"
    and "list_all (registered_reply ag) (model_replies new)"
    and "\<not> list_ex nullish_rejection (tool_results new)"
  shows "\<exists>nths. result = Inr \<lparr> outputText = exhaustedOutput, thoughts = ths @ nths \<rparr> \<and>
           length nths = nat (agentMaxTurns ag - turn) \<and>
           length (model_replies new) = nat (agentMaxTurns ag - turn) \<and>
           list_all is_action_record nths"
  using assms
proof (induction "nat (agentMaxTurns ag - turn)" arbitrary: turn ths sp w new)
  case 0
  then have "\<not> turn < agentMaxTurns ag" by simp
  then have "result = Inr \<lparr> outputText = exhaustedOutput, thoughts = ths @ [] \<rparr>" "new = []"
    using "0.prems"(1) by (simp_all add: agent_loop_exhausted)
  then show ?case using "0.hyps" by simp
next
  case (Suc n)
  then have lt: "turn < agentMaxTurns ag" by simp
  note r = Suc.prems(1) and reg = Suc.prems(2) and nn = Suc.prems(3)
  from lt show ?case
  proof (cases rule: loop_turn_cases [of turn ag task sp ctx w])
    case (model_error e w1)
    then have "new = [ModelCall (turnMessages ag task sp) (Inl e)]"
      using lt r by (simp add: agent_loop_model_error)
    then show ?thesis using reg by (simp add: registered_reply_def)
  next
    case (unparsable o1 w1 e)
    then have "new = [ModelCall (turnMessages ag task sp) (Inr o1)]"
      using lt r by (simp add: agent_loop_unparsable)
    then show ?thesis using reg unparsable(2) by (simp add: registered_reply_def)
  next
    case (final o1 w1 th1 fr)
    then have "new = [ModelCall (turnMessages ag task sp) (Inr o1)]"
      using lt r by (simp add: agent_loop_final)
    then show ?thesis using reg final(2) by (simp add: registered_reply_def)
  next
    case (unknown_tool o1 w1 th1 tn1 ti1)
    then have "new = [ModelCall (turnMessages ag task sp) (Inr o1)]"
      using lt r by (simp add: agent_loop_unknown_tool)
    then show ?thesis using reg unknown_tool(2,3) by (simp add: registered_reply_def)
  next
    case (action o1 w1 th1 tn1 ti1 tool res w2 obs)
    let ?rec = "\<lparr> thought = th1, action = Some \<lparr> toolName = tn1, toolInput = ti1 \<rparr>,
                   observation = Some obs, rawOutput = Some o1 \<rparr>"
    from lt action r obtain new' where
      nx: "agent_loop ag task ctx (turn + 1) (ths @ [?rec])
         (nextScratchpad sp (turnScratch th1 tn1 ti1 obs)) w2 [] = (result, w', new')"
      and nw: "new = ModelCall (turnMessages ag task sp) (Inr o1) # ToolCall tn1 ti1 res # new'"
      by (rule loop_action_split)
    have n: "n = nat (agentMaxTurns ag - (turn + 1))" using Suc.hyps(2) by simp
    have reg': "list_all (registered_reply ag) (model_replies new')" using reg nw by simp
    have nn': "\<not> list_ex nullish_rejection (tool_results new')" using nn nw by simp
    from Suc.hyps(1) [OF n nx reg' nn'] obtain nths where
      res: "result = Inr \<lparr> outputText = exhaustedOutput, thoughts = (ths @ [?rec]) @ nths \<rparr>"
      and len: "length nths = nat (agentMaxTurns ag - (turn + 1))"
      and lr: "length (model_replies new') = nat (agentMaxTurns ag - (turn + 1))"
      and ar: "list_all is_action_record nths"
      by blast
    have "result = Inr \<lparr> outputText = exhaustedOutput, thoughts = ths @ (?rec # nths) \<rparr> \<and>
          length (?rec # nths) = nat (agentMaxTurns ag - turn) \<and>
          length (model_replies new) = nat (agentMaxTurns ag - turn) \<and>
          list_all is_action_record (?rec # nths)"
      using res len lr ar nw lt by (simp add: is_action_record_def)
    then show ?thesis by blast
  next
    case (catch_throws o1 w1 th1 tn1 ti1 tool res w2 err)
    have "new = [ModelCall (turnMessages ag task sp) (Inr o1), ToolCall tn1 ti1 res]"
      using r unfolding agent_loop_catch_throws [OF lt catch_throws] by simp
    then have "\<not> nullish_rejection res" using nn by simp
    then show ?thesis using observationOf_message [of res] catch_throws(5) by auto
  qed
qed

lemma loop_records:
  assumes "agent_loop ag task ctx turn ths sp w [] = (Inr r, w', new)"
  shows "\<exists>nths. thoughts r = ths @ nths \<and>
           list_all2 record_matches nths (model_replies new) \<and>
           list_all is_action_record (butlast nths)"
  using assms
proof (induction "nat (agentMaxTurns ag - turn)" arbitrary: turn ths sp w new)
  case 0
  then have "\<not> turn < agentMaxTurns ag" by simp
  then have "thoughts r = ths @ []" "new = []"
    using "0.prems"(1) by (auto simp: agent_loop_exhausted)
  then show ?case by simp
next
  case (Suc n)
  then have lt: "turn < agentMaxTurns ag" by simp
  note r = Suc.prems(1)
  from lt show ?case
  proof (cases rule: loop_turn_cases [of turn ag task sp ctx w])
    case (model_error e w1)
    then show ?thesis using lt r by (simp add: agent_loop_model_error)
  next
    case (unparsable o1 w1 e)
    then show ?thesis using lt r by (simp add: agent_loop_unparsable)
  next
    case (final o1 w1 th1 fr)
    let ?rec = "\<lparr> thought = th1, action = None, observation = None, rawOutput = Some o1 \<rparr>"
    from final have "thoughts r = ths @ [?rec]" "new = [ModelCall (turnMessages ag task sp) (Inr o1)]"
      using lt r by (auto simp: agent_loop_final)
    then have "thoughts r = ths @ [?rec] \<and>
           list_all2 record_matches [?rec] (model_replies new) \<and>
           list_all is_action_record (butlast [?rec])"
      using final(2) by (simp add: record_matches_def)
    then show ?thesis by blast
  next
    case (unknown_tool o1 w1 th1 tn1 ti1)
    then show ?thesis using lt r by (simp add: agent_loop_unknown_tool)
  next
    case (action o1 w1 th1 tn1 ti1 tool res w2 obs)
    let ?rec = "\<lparr> thought = th1, action = Some \<lparr> toolName = tn1, toolInput = ti1 \<rparr>,
                   observation = Some obs, rawOutput = Some o1 \<rparr>"
    from lt action r obtain new' where
      nx: "agent_loop ag task ctx (turn + 1) (ths @ [?rec])
         (nextScratchpad sp (turnScratch th1 tn1 ti1 obs)) w2 [] = (Inr r, w', new')"
      and nw: "new = ModelCall (turnMessages ag task sp) (Inr o1) # ToolCall tn1 ti1 res # new'"
      by (rule loop_action_split)
    have n: "n = nat (agentMaxTurns ag - (turn + 1))" using Suc.hyps(2) by simp
    from Suc.hyps(1) [OF n nx] obtain nths where
      th: "thoughts r = (ths @ [?rec]) @ nths"
      and m: "list_all2 record_matches nths (model_replies new')"
      and a: "list_all is_action_record (butlast nths)"
      by blast
    have "thoughts r = ths @ (?rec # nths) \<and>
           list_all2 record_matches (?rec # nths) (model_replies new) \<and>
           list_all is_action_record (butlast (?rec # nths))"
      using th m a nw action(2) by (simp add: record_matches_def is_action_record_def)
    then show ?thesis by blast
  next
    case (catch_throws o1 w1 th1 tn1 ti1 tool res w2 err)
    then show ?thesis using lt r by (simp add: agent_loop_catch_throws)
  qed
qed


lemma js_includes_middle: "js_includes (a @ p @ b) p"
proof (induction a)
  case Nil
  have sw: "startsWith (p @ b) p" by (simp add: startsWith_def)
  show ?case
  proof (cases "p @ b")
    case Nil then show ?thesis by simp
  next
    case (Cons c cs)
    then have "js_includes (p @ b) p = (startsWith (p @ b) p \<or> js_includes cs p)" by simp
    then show ?thesis using sw by simp
  qed
next
  case (Cons x a)
  then show ?case by simp
qed

lemma in_set_dropWhile: "x \<in> set s \<Longrightarrow> \<not> P x \<Longrightarrow> x \<in> set (dropWhile P s)"
  by (induction s) auto

lemma trim_nonempty: "x \<in> set s \<Longrightarrow> \<not> isWhiteSpace x \<Longrightarrow> trim s \<noteq> []"
proof -
  assume x: "x \<in> set s" "\<not> isWhiteSpace x"
  then have "x \<in> set (rev (dropWhile isWhiteSpace s))" by (simp add: in_set_dropWhile)
  then have m: "x \<in> set (dropWhile isWhiteSpace (rev (dropWhile isWhiteSpace s)))"
    using x(2) by (rule in_set_dropWhile)
  have "dropWhile isWhiteSpace (rev (dropWhile isWhiteSpace s)) \<noteq> []"
  proof
    assume "dropWhile isWhiteSpace (rev (dropWhile isWhiteSpace s)) = []"
    with m show False by simp
  qed
  then show ?thesis unfolding trim_def by simp
qed

lemma turnScratch_observation:
  "\<exists>a. turnScratch th tn ti obs = js ''Thought: '' @ a @ (js ''Observation: '' @ obs)"
  by (simp add: turnScratch_def)

lemma nextScratchpad_observation:
  "\<exists>a. nextScratchpad sp (turnScratch th tn ti obs) = a @ (js ''Observation: '' @ obs) @ [] \<and>
       84 \<in> set a"
proof -
  obtain a where a: "turnScratch th tn ti obs = js ''Thought: '' @ a @ (js ''Observation: '' @ obs)"
    using turnScratch_observation by blast
  show ?thesis
  proof (cases "sp = []")
    case True
    then have "nextScratchpad sp (turnScratch th tn ti obs) =
        (js ''Thought: '' @ a) @ (js ''Observation: '' @ obs) @ [] \<and> 84 \<in> set (js ''Thought: '' @ a)"
      using a by (simp add: nextScratchpad_def js_def)
    then show ?thesis by blast
  next
    case False
    then have "nextScratchpad sp (turnScratch th tn ti obs) =
        (sp @ js ''\<newline>\<newline>'' @ js ''Thought: '' @ a) @ (js ''Observation: '' @ obs) @ [] \<and>
        84 \<in> set (sp @ js ''\<newline>\<newline>'' @ js ''Thought: '' @ a)"
      using a by (simp add: nextScratchpad_def js_def)
    then show ?thesis by blast
  qed
qed

lemma last_turnMessage:
  "content (last (turnMessages ag task sp)) =
     trim task @ (if trim sp \<noteq> [] then js ''\<newline>\<newline>Scratchpad:\<newline>'' @ sp else [])"
  by (simp add: turnMessages_def buildReactMessages_def Let_def)

lemma observation_in_next_prompt:
  "js_includes (nextScratchpad sp (turnScratch th tn ti obs)) (js ''Observation: '' @ obs) \<and>
   js_includes (content (last (turnMessages ag task (nextScratchpad sp (turnScratch th tn ti obs)))))
     (js ''Observation: '' @ obs)"
proof -
  obtain a where a: "nextScratchpad sp (turnScratch th tn ti obs) = a @ (js ''Observation: '' @ obs) @ []"
    and t: "84 \<in> set a"
    using nextScratchpad_observation by blast
  have ne: "trim (nextScratchpad sp (turnScratch th tn ti obs)) \<noteq> []"
    by (rule trim_nonempty [of 84]) (simp_all add: a t isWhiteSpace_def)
  have "content (last (turnMessages ag task (nextScratchpad sp (turnScratch th tn ti obs)))) =
        (trim task @ js ''\<newline>\<newline>Scratchpad:\<newline>'' @ a) @ (js ''Observation: '' @ obs) @ []"
    using ne by (simp add: last_turnMessage a)
  then show ?thesis
    using js_includes_middle [of a "js ''Observation: '' @ obs" "[]"]
      js_includes_middle [of "trim task @ js ''\<newline>\<newline>Scratchpad:\<newline>'' @ a" "js ''Observation: '' @ obs" "[]"]
    by (simp only: a)
qed

lemma loop_first_call:
  assumes "turn < agentMaxTurns ag"
  shows "\<exists>reply rest. snd (snd (agent_loop ag task ctx turn ths sp w tr)) =
           tr @ ModelCall (turnMessages ag task sp) reply # rest"
proof -
  obtain result w' new where r: "agent_loop ag task ctx turn ths sp w [] = (result, w', new)"
    by (cases "agent_loop ag task ctx turn ths sp w []") auto
  then have s: "snd (snd (agent_loop ag task ctx turn ths sp w tr)) = tr @ new"
    by (subst loop_trace_shift) simp
  from assms have "\<exists>reply rest. new = ModelCall (turnMessages ag task sp) reply # rest"
  proof (cases rule: loop_turn_cases [of turn ag task sp ctx w])
    case (model_error e w1)
    then have "new = [ModelCall (turnMessages ag task sp) (Inl e)]"
      using assms r by (simp add: agent_loop_model_error)
    then show ?thesis by blast
  next
    case (unparsable o1 w1 e)
    then have "new = [ModelCall (turnMessages ag task sp) (Inr o1)]"
      using assms r by (simp add: agent_loop_unparsable)
    then show ?thesis by blast
  next
    case (final o1 w1 th1 fr)
    then have "new = [ModelCall (turnMessages ag task sp) (Inr o1)]"
      using assms r by (simp add: agent_loop_final)
    then show ?thesis by blast
  next
    case (unknown_tool o1 w1 th1 tn1 ti1)
    then have "new = [ModelCall (turnMessages ag task sp) (Inr o1)]"
      using assms r by (simp add: agent_loop_unknown_tool)
    then show ?thesis by blast
  next
    case (action o1 w1 th1 tn1 ti1 tool res w2 obs)
    from assms action r obtain new' where
      "new = ModelCall (turnMessages ag task sp) (Inr o1) # ToolCall tn1 ti1 res # new'"
      by (rule loop_action_split)
    then show ?thesis by blast
  next
    case (catch_throws o1 w1 th1 tn1 ti1 tool res w2 err)
    have "new = [ModelCall (turnMessages ag task sp) (Inr o1), ToolCall tn1 ti1 res]"
      using r unfolding agent_loop_catch_throws [OF assms catch_throws] by simp
    then show ?thesis by blast
  qed
  then show ?thesis using s by auto
qed

lemmas agent_eval =
  run_def demo_agent_def newReactAgent_def scripted_model_def echo_tool_def broken_tool_def
  repeating_model_def patient_agent_def
  demo_options_def agent_loop.simps Let_def observationOf_def failedObservation_def
  nextScratchpad_def turnScratch_def UnknownTool_def exhaustedOutput_def js_def Error_def

text \<open>
  C3. In every run, whenever a reply of the model parses to an action whose tool name is
  not in the registry, the run fails with \<open>UnknownTool\<close> for that name, and that
  call of the model is the last call of the run: no call of the model or of a tool
  follows it in the trace.
\<close>

theorem unknown_tool_aborts_run:
  assumes "run h ag task options w = (result, w', tr)"
    and "tr = pre @ ModelCall msgs (Inr out) # post"
    and "parseReactOutput out = Inr (Action th tn ti)"
    and "toolMap ag tn = None"
  shows "result = Inl (UnknownTool tn) \<and> post = []"
  using assms unfolding run_def Let_def by (rule loop_unknown_tool_last)


lemma reply_echo:
  "parseReactOutput (js ''Action: echo\<newline>Action Input: hi'') = Inr (Action [] (js ''echo'') (js ''hi''))"
  by (simp add: parse_eval)

lemma reply_nope:
  "parseReactOutput (js ''Action: nope\<newline>Action Input: x'') = Inr (Action [] (js ''nope'') (js ''x''))"
  by (simp add: parse_eval)

lemma reply_broken:
  "parseReactOutput (js ''Thought: read it\<newline>Action: broken\<newline>Action Input: missing.txt'') =
     Inr (Action (js ''read it'') (js ''broken'') (js ''missing.txt''))"
  by (simp add: parse_eval)

lemma reply_final:
  "parseReactOutput (js ''Thought: ok\<newline>Final Response: done'') = Inr (Final (js ''ok'') (js ''done''))"
  by (simp add: parse_eval)

lemmas reply_eval =
  reply_echo [unfolded js_def, simplified] reply_nope [unfolded js_def, simplified]
  reply_broken [unfolded js_def, simplified] reply_final [unfolded js_def, simplified]

theorem unknown_tool_aborts_run_witness:
  "fst (run demo_host
         (demo_agent [js ''Action: echo\<newline>Action Input: hi'', js ''Action: nope\<newline>Action Input: x'',
                      js ''Thought: ok\<newline>Final Response: done''] None)
         (js ''task'') demo_options 0) = Inl (UnknownTool (js ''nope'')) \<and>
   model_replies (snd (snd (run demo_host
         (demo_agent [js ''Action: echo\<newline>Action Input: hi'', js ''Action: nope\<newline>Action Input: x'',
                      js ''Thought: ok\<newline>Final Response: done''] None)
         (js ''task'') demo_options 0))) =
     [Inr (js ''Action: echo\<newline>Action Input: hi''), Inr (js ''Action: nope\<newline>Action Input: x'')]"
proof -
  let ?ag = "demo_agent [js ''Action: echo\<newline>Action Input: hi'', js ''Action: nope\<newline>Action Input: x'',
                      js ''Thought: ok\<newline>Final Response: done''] None"
  have "\<exists>result m1 m2. run demo_host ?ag (js ''task'') demo_options 0 =
      (result, 2, [ModelCall m1 (Inr (js ''Action: echo\<newline>Action Input: hi'')),
            ToolCall (js ''echo'') (js ''hi'') (Inr (js ''hi''))] @
           ModelCall m2 (Inr (js ''Action: nope\<newline>Action Input: x'')) # [])"
    by (simp add: agent_eval reply_eval)
  then obtain result m1 m2 where r: "run demo_host ?ag (js ''task'') demo_options 0 =
      (result, 2, [ModelCall m1 (Inr (js ''Action: echo\<newline>Action Input: hi'')),
            ToolCall (js ''echo'') (js ''hi'') (Inr (js ''hi''))] @
           ModelCall m2 (Inr (js ''Action: nope\<newline>Action Input: x'')) # [])"
    by blast
  have t: "toolMap ?ag (js ''nope'') = None"
    by (simp add: agent_eval)
  from unknown_tool_aborts_run [OF r refl reply_nope t]
  show ?thesis using r by simp
qed


text \<open>
  Exhaustion. When every reply of the model in a run is an action naming a tool of the
  registry, and no call of a tool is rejected with \<^verbatim>\<open>null\<close> or \<^verbatim>\<open>undefined\<close>, the
  run returns the fixed output
  \<^verbatim>\<open>I could not finish within the allotted number of steps.\<close> with one action
  record for each of the \<open>maxTurns\<close> turns, 8 of them when the configuration gives no
  limit, after exactly that many calls of the model.
\<close>

lemma exhaustion_without_nullish_rejection:
  assumes "run h (newReactAgent model config) task options w = (result, w', tr)"
    and "list_all (registered_reply (newReactAgent model config)) (model_replies tr)"
    and "\<not> list_ex nullish_rejection (tool_results tr)"
  shows "(\<exists>ths. result = Inr \<lparr> outputText = js ''I could not finish within the allotted number of steps.'',
                                 thoughts = ths \<rparr> \<and>
            length ths = nat (case maxTurns config of None \<Rightarrow> 8 | Some n \<Rightarrow> n) \<and>
            list_all is_action_record ths) \<and>
         length (model_replies tr) = nat (case maxTurns config of None \<Rightarrow> 8 | Some n \<Rightarrow> n)"
proof -
  let ?ag = "newReactAgent model config"
  have m: "agentMaxTurns ?ag = (case maxTurns config of None \<Rightarrow> 8 | Some n \<Rightarrow> n)"
    by (simp add: newReactAgent_def)
  from assms(1) obtain ctx where
    l: "agent_loop ?ag task ctx 0 [] [] w [] = (result, w', tr)"
    unfolding run_def Let_def by blast
  from loop_all_registered [OF l assms(2,3)] obtain nths where
    "result = Inr \<lparr> outputText = exhaustedOutput, thoughts = [] @ nths \<rparr>"
    "length nths = nat (agentMaxTurns ?ag - 0)"
    "length (model_replies tr) = nat (agentMaxTurns ?ag - 0)"
    "list_all is_action_record nths"
    by blast
  then have "(result = Inr \<lparr> outputText = js ''I could not finish within the allotted number of steps.'',
                                 thoughts = nths \<rparr> \<and>
            length nths = nat (case maxTurns config of None \<Rightarrow> 8 | Some n \<Rightarrow> n) \<and>
            list_all is_action_record nths) \<and>
         length (model_replies tr) = nat (case maxTurns config of None \<Rightarrow> 8 | Some n \<Rightarrow> n)"
    unfolding m exhaustedOutput_def by simp
  then show ?thesis by blast
qed

lemma patient_agent_exhausts:
  "list_all (registered_reply patient_agent)
     (model_replies (snd (snd (run demo_host patient_agent (js ''task'') demo_options 0)))) \<and>
   \<not> list_ex nullish_rejection
     (tool_results (snd (snd (run demo_host patient_agent (js ''task'') demo_options 0)))) \<and>
   (\<exists>ths. fst (run demo_host patient_agent (js ''task'') demo_options 0) =
            Inr \<lparr> outputText = js ''I could not finish within the allotted number of steps.'',
                   thoughts = ths \<rparr> \<and> length ths = 8) \<and>
   length (model_replies (snd (snd (run demo_host patient_agent (js ''task'') demo_options 0)))) = 8"
proof -
  obtain result w' tr where
    r: "run demo_host patient_agent (js ''task'') demo_options 0 = (result, w', tr)"
    by (cases "run demo_host patient_agent (js ''task'') demo_options 0") auto
  define reply :: "js_error + js_string" where
    "reply = Inr (js ''Action: echo\<newline>Action Input: hi'')"
  define answer :: "js_error + js_string" where "answer = Inr (js ''hi'')"
  have "model_replies (snd (snd (run demo_host patient_agent (js ''task'') demo_options 0))) =
      [reply, reply, reply, reply, reply, reply, reply, reply]"
    unfolding reply_def by (simp add: agent_eval reply_eval)
  then have tr: "model_replies tr = [reply, reply, reply, reply, reply, reply, reply, reply]"
    using r by simp
  have "tool_results (snd (snd (run demo_host patient_agent (js ''task'') demo_options 0))) =
      [answer, answer, answer, answer, answer, answer, answer, answer]"
    unfolding answer_def by (simp add: agent_eval reply_eval)
  then have ts: "tool_results tr = [answer, answer, answer, answer, answer, answer, answer, answer]"
    using r by simp
  have "registered_reply patient_agent reply"
    unfolding reply_def by (simp add: registered_reply_def reply_echo) (simp add: agent_eval)
  then have reg: "list_all (registered_reply patient_agent) (model_replies tr)"
    unfolding tr by simp
  have "\<not> nullish_rejection answer" by (simp add: nullish_rejection_def answer_def)
  then have nn: "\<not> list_ex nullish_rejection (tool_results tr)"
    unfolding ts by simp
  from exhaustion_without_nullish_rejection
    [OF r [unfolded patient_agent_def] reg [unfolded patient_agent_def] nn]
  obtain ths where
    "result = Inr \<lparr> outputText = js ''I could not finish within the allotted number of steps.'',
                     thoughts = ths \<rparr> \<and> length ths = 8"
    and "length (model_replies tr) = 8"
    by auto
  then show ?thesis using r reg nn by auto
qed

lemma reply_throw_null:
  "parseReactOutput (js ''Action: node\<newline>Action Input: throw null;'') =
     Inr (Action [] (js ''node'') (js ''throw null;''))"
  by (simp add: parse_eval)

text \<open>
  C5 fails on the code. The \<^verbatim>\<open>node\<close> tool is registered and no turn limit is
  configured, so the limit is 8; the model asks for the snippet \<^verbatim>\<open>throw null;\<close>,
  a reply that parses to an action naming a registered tool. The call of the tool is
  rejected with \<^verbatim>\<open>null\<close>, the \<^verbatim>\<open>catch\<close> block reads \<^verbatim>\<open>message\<close> of it, and
  \<^verbatim>\<open>run\<close> throws that \<^verbatim>\<open>TypeError\<close> after one call of the model and one of the
  tool: it does not return the exhaustion output.
\<close>

theorem exhaustion_throws_on_null_rejection:
  "agentMaxTurns careless_agent = 8 \<and>
   registered_reply careless_agent (Inr (js ''Action: node\<newline>Action Input: throw null;'')) \<and>
   run demo_host careless_agent (js ''task'') demo_options 0 =
     (Inl (TypeError (js ''Cannot read properties of null (reading '' @ [39] @ js ''message'' @
                      [39] @ js '')'')),
      1,
      [ModelCall (turnMessages careless_agent (js ''task'') [])
         (Inr (js ''Action: node\<newline>Action Input: throw null;'')),
       ToolCall (js ''node'') (js ''throw null;'') (Inl ThrownNull)])"
proof -
  have 1: "agentMaxTurns careless_agent = 8"
    by (simp add: careless_agent_def newReactAgent_def)
  have t: "toolMap careless_agent (js ''node'') = Some null_tool"
    by (simp add: careless_agent_def newReactAgent_def null_tool_def)
  have 2: "registered_reply careless_agent (Inr (js ''Action: node\<newline>Action Input: throw null;''))"
    by (simp add: registered_reply_def reply_throw_null t)
  have c: "complete (llm careless_agent) (turnMessages careless_agent (js ''task'') [])
             (signal \<lparr> cwd = js ''/repo'', signal = FreshSignal, env = None \<rparr>) 0 =
           (Inr (js ''Action: node\<newline>Action Input: throw null;''), 1)"
    by (simp add: careless_agent_def newReactAgent_def repeating_model_def)
  have e: "execute null_tool (js ''throw null;'')
             \<lparr> cwd = js ''/repo'', signal = FreshSignal, env = None \<rparr> 1 = (Inl ThrownNull, 1)"
    by (simp add: null_tool_def)
  have o: "observationOf (Inl ThrownNull) =
      Inl (TypeError (js ''Cannot read properties of null (reading '' @ [39] @ js ''message'' @
                      [39] @ js '')''))"
    by (simp add: observationOf_def failedObservation_def)
  have lt: "0 < agentMaxTurns careless_agent" using 1 by simp
  have 3: "run demo_host careless_agent (js ''task'') demo_options 0 =
     (Inl (TypeError (js ''Cannot read properties of null (reading '' @ [39] @ js ''message'' @
                      [39] @ js '')'')),
      1,
      [ModelCall (turnMessages careless_agent (js ''task'') [])
         (Inr (js ''Action: node\<newline>Action Input: throw null;'')),
       ToolCall (js ''node'') (js ''throw null;'') (Inl ThrownNull)])"
    unfolding run_def demo_options_def Let_def
    by (simp add: agent_loop_catch_throws [OF lt c reply_throw_null t e o])
  show ?thesis using 1 2 3 by (intro conjI)
qed


text \<open>
  C10. In every result a run returns, the step records are, in order, one for each reply
  of the model: the record of a reply that parses to an action carries the thought, the
  tool name and input, an observation and the raw reply; the record of a reply that
  parses to a final response carries the thought and the raw reply, no action and no
  observation; and every record but the last is an action record, so that a final
  record is the single last one.
\<close>

theorem step_records_follow_replies:
  assumes "run h ag task options w = (Inr r, w', tr)"
  shows "list_all2 record_matches (thoughts r) (model_replies tr) \<and>
         list_all is_action_record (butlast (thoughts r))"
proof -
  from assms obtain ctx where
    l: "agent_loop ag task ctx 0 [] [] w [] = (Inr r, w', tr)"
    unfolding run_def Let_def by blast
  from loop_records [OF l] show ?thesis by simp
qed

theorem step_records_follow_replies_witness:
  "(\<exists>w' tr. run demo_host
       (demo_agent [js ''Action: echo\<newline>Action Input: hi'',
                    js ''Thought: ok\<newline>Final Response: done''] None)
       (js ''task'') demo_options 0 =
     (Inr \<lparr> outputText = js ''done'',
            thoughts =
              [\<lparr> thought = [], action = Some \<lparr> toolName = js ''echo'', toolInput = js ''hi'' \<rparr>,
                 observation = Some (js ''hi''),
                 rawOutput = Some (js ''Action: echo\<newline>Action Input: hi'') \<rparr>,
               \<lparr> thought = js ''ok'', action = None, observation = None,
                 rawOutput = Some (js ''Thought: ok\<newline>Final Response: done'') \<rparr>] \<rparr>, w', tr) \<and>
     model_replies tr = [Inr (js ''Action: echo\<newline>Action Input: hi''),
                         Inr (js ''Thought: ok\<newline>Final Response: done'')]) \<and>
   record_matches
     \<lparr> thought = js ''ok'', action = None, observation = None,
       rawOutput = Some (js ''Thought: ok\<newline>Final Response: done'') \<rparr>
     (Inr (js ''Thought: ok\<newline>Final Response: done''))"
proof -
  let ?ag = "demo_agent [js ''Action: echo\<newline>Action Input: hi'',
                    js ''Thought: ok\<newline>Final Response: done''] None"
  let ?r = "\<lparr> outputText = js ''done'',
            thoughts =
              [\<lparr> thought = [], action = Some \<lparr> toolName = js ''echo'', toolInput = js ''hi'' \<rparr>,
                 observation = Some (js ''hi''),
                 rawOutput = Some (js ''Action: echo\<newline>Action Input: hi'') \<rparr>,
               \<lparr> thought = js ''ok'', action = None, observation = None,
                 rawOutput = Some (js ''Thought: ok\<newline>Final Response: done'') \<rparr>] \<rparr>"
  have "\<exists>m1 m2. run demo_host ?ag (js ''task'') demo_options 0 =
      (Inr ?r, 2, [ModelCall m1 (Inr (js ''Action: echo\<newline>Action Input: hi'')),
            ToolCall (js ''echo'') (js ''hi'') (Inr (js ''hi'')),
            ModelCall m2 (Inr (js ''Thought: ok\<newline>Final Response: done''))])"
    by (simp add: agent_eval reply_eval)
  then obtain m1 m2 where r: "run demo_host ?ag (js ''task'') demo_options 0 =
      (Inr ?r, 2, [ModelCall m1 (Inr (js ''Action: echo\<newline>Action Input: hi'')),
            ToolCall (js ''echo'') (js ''hi'') (Inr (js ''hi'')),
            ModelCall m2 (Inr (js ''Thought: ok\<newline>Final Response: done''))])"
    by blast
  from step_records_follow_replies [OF r] show ?thesis using r by simp
qed

text \<open>
  C4. At every turn of the loop whose reply parses to an action naming a registered
  tool, when the tool throws an error with message \<open>m\<close> the run goes on with the
  next turn: the step record of the turn carries the observation
  \<^verbatim>\<open>Tool execution failed: \<close> followed by \<open>m\<close>, the scratchpad contains that
  observation, so does the last message of the prompt built from it, and when a turn is
  left that prompt is what the next call of the model receives.
\<close>

theorem tool_failure_becomes_observation:
  assumes "turn < agentMaxTurns ag"
    and "complete (llm ag) (turnMessages ag task sp) (signal ctx) w = (Inr out, w1)"
    and "parseReactOutput out = Inr (Action th tn ti)"
    and "toolMap ag tn = Some tool"
    and "execute tool ti ctx w1 = (Inl (JsError nm m), w2)"
  shows
    "let obs = js ''Tool execution failed: '' @ m;
         entry = \<lparr> thought = th, action = Some \<lparr> toolName = tn, toolInput = ti \<rparr>,
                    observation = Some obs, rawOutput = Some out \<rparr>;
         sp' = nextScratchpad sp (turnScratch th tn ti obs);
         calls = [ModelCall (turnMessages ag task sp) (Inr out), ToolCall tn ti (Inl (JsError nm m))]
     in agent_loop ag task ctx turn ths sp w tr =
          agent_loop ag task ctx (turn + 1) (ths @ [entry]) sp' w2 (tr @ calls) \<and>
        js_includes sp' (js ''Observation: '' @ obs) \<and>
        js_includes (content (last (turnMessages ag task sp'))) (js ''Observation: '' @ obs) \<and>
        (turn + 1 < agentMaxTurns ag \<longrightarrow>
           (\<exists>reply rest. snd (snd (agent_loop ag task ctx turn ths sp w tr)) =
              tr @ calls @ ModelCall (turnMessages ag task sp') reply # rest))"
proof -
  define obs where "obs = js ''Tool execution failed: '' @ m"
  define entry where "entry = \<lparr> thought = th, action = Some \<lparr> toolName = tn, toolInput = ti \<rparr>,
                    observation = Some obs, rawOutput = Some out \<rparr>"
  define sp' where "sp' = nextScratchpad sp (turnScratch th tn ti obs)"
  define calls where
    "calls = [ModelCall (turnMessages ag task sp) (Inr out), ToolCall tn ti (Inl (JsError nm m))]"
  have o: "observationOf (Inl (JsError nm m)) = Inr obs"
    by (simp add: observationOf_def failedObservation_def obs_def)
  have step: "agent_loop ag task ctx turn ths sp w tr =
          agent_loop ag task ctx (turn + 1) (ths @ [entry]) sp' w2 (tr @ calls)"
    using agent_loop_action [OF assms o, of ths tr]
    by (simp add: entry_def sp'_def calls_def)
  have inc: "js_includes sp' (js ''Observation: '' @ obs) \<and>
        js_includes (content (last (turnMessages ag task sp'))) (js ''Observation: '' @ obs)"
    unfolding sp'_def by (rule observation_in_next_prompt)
  have nxt: "\<exists>reply rest. snd (snd (agent_loop ag task ctx turn ths sp w tr)) =
              tr @ calls @ ModelCall (turnMessages ag task sp') reply # rest"
    if "turn + 1 < agentMaxTurns ag"
    using loop_first_call [OF that, of task ctx "ths @ [entry]" sp' w2 "tr @ calls"]
    unfolding step by simp
  show ?thesis
    unfolding Let_def obs_def [symmetric] entry_def [symmetric] sp'_def [symmetric]
      calls_def [symmetric]
    using step inc nxt by blast
qed


theorem tool_failure_becomes_observation_witness:
  "parseReactOutput (js ''Thought: read it\<newline>Action: broken\<newline>Action Input: missing.txt'') =
     Inr (Action (js ''read it'') (js ''broken'') (js ''missing.txt'')) \<and>
   execute broken_tool (js ''missing.txt'') demo_ctx 1 = (Inl (Error (js ''no such file'')), 1) \<and>
   js_includes
     (content (last (turnMessages
        (demo_agent [js ''Thought: read it\<newline>Action: broken\<newline>Action Input: missing.txt'',
                     js ''Thought: ok\<newline>Final Response: done''] (Some 2))
        (js ''task'')
        (nextScratchpad []
           (turnScratch (js ''read it'') (js ''broken'') (js ''missing.txt'')
              (js ''Tool execution failed: no such file''))))))
     (js ''Observation: Tool execution failed: no such file'') \<and>
   fst (run demo_host
        (demo_agent [js ''Thought: read it\<newline>Action: broken\<newline>Action Input: missing.txt'',
                     js ''Thought: ok\<newline>Final Response: done''] (Some 2))
        (js ''task'') demo_options 0) =
     Inr \<lparr> outputText = js ''done'',
            thoughts =
              [\<lparr> thought = js ''read it'',
                 action = Some \<lparr> toolName = js ''broken'', toolInput = js ''missing.txt'' \<rparr>,
                 observation = Some (js ''Tool execution failed: no such file''),
                 rawOutput = Some (js ''Thought: read it\<newline>Action: broken\<newline>Action Input: missing.txt'') \<rparr>,
               \<lparr> thought = js ''ok'', action = None, observation = None,
                 rawOutput = Some (js ''Thought: ok\<newline>Final Response: done'') \<rparr>] \<rparr>"
proof -
  let ?ag = "demo_agent [js ''Thought: read it\<newline>Action: broken\<newline>Action Input: missing.txt'',
                     js ''Thought: ok\<newline>Final Response: done''] (Some 2)"
  have 1: "0 < agentMaxTurns ?ag" by (simp add: agent_eval)
  have 2: "complete (llm ?ag) (turnMessages ?ag (js ''task'') []) (signal demo_ctx) 0 =
      (Inr (js ''Thought: read it\<newline>Action: broken\<newline>Action Input: missing.txt''), 1)"
    by (simp add: agent_eval)
  have 4: "toolMap ?ag (js ''broken'') = Some broken_tool" by (simp add: agent_eval)
  have 5: "execute broken_tool (js ''missing.txt'') demo_ctx 1 =
      (Inl (JsError (js ''Error'') (js ''no such file'')), 1)"
    by (simp add: broken_tool_def Error_def)
  have r: "fst (run demo_host ?ag (js ''task'') demo_options 0) =
     Inr \<lparr> outputText = js ''done'',
            thoughts =
              [\<lparr> thought = js ''read it'',
                 action = Some \<lparr> toolName = js ''broken'', toolInput = js ''missing.txt'' \<rparr>,
                 observation = Some (js ''Tool execution failed: no such file''),
                 rawOutput = Some (js ''Thought: read it\<newline>Action: broken\<newline>Action Input: missing.txt'') \<rparr>,
               \<lparr> thought = js ''ok'', action = None, observation = None,
                 rawOutput = Some (js ''Thought: ok\<newline>Final Response: done'') \<rparr>] \<rparr>"
    by (simp add: agent_eval reply_eval)
  from tool_failure_becomes_observation [OF 1 2 reply_broken 4 5, of "[]" "[]"]
  have "js_includes
     (content (last (turnMessages ?ag (js ''task'')
        (nextScratchpad []
           (turnScratch (js ''read it'') (js ''broken'') (js ''missing.txt'')
              (js ''Tool execution failed: '' @ js ''no such file''))))))
     (js ''Observation: '' @ js ''Tool execution failed: '' @ js ''no such file'')"
    unfolding Let_def by blast
  then show ?thesis using r 5 reply_broken by (simp add: js_def Error_def)
qed

section \<open>The file tools\<close>












lemma write_file_success:
  assumes "parseWritePayload parse inputText = Inr \<lparr> wp_path = p, wp_contents = c \<rparr>"
    and "execute (createWriteFileTool parse h) inputText ctx fs = (Inr message, fs')"
  obtains target fs1 where
    "resolveRepoPath h p ctx = Inr target"
    "fs_mkdir fs (path_dirname target) = Inr fs1"
    "fs_writeFile fs1 target c = Inr fs'"
    "message = js ''Wrote '' @ show_nat (length c) @ js '' characters to '' @
               pathFromRepoRoot h target ctx"
  using assms
  by (auto simp: createWriteFileTool_def Let_def split: sum.splits)





lemmas fs_eval =
  createWriteFileTool_def createReadFileTool_def parseWritePayload_def fixed_parser_def
  write_payload_def demo_fs_def fs_mkdir_def fs_writeFile_def fs_stat_def fs_readFile_def
  path_segments_def path_dirname_def pathFromRepoRoot_def path_relative_def
  isHighSurrogate_def isLowSurrogate_def isWellFormed_def show_nat.simps

lemma utf8_length_ascii_Cons: "c < 128 \<Longrightarrow> utf8_length (c # cs) = 1 + utf8_length cs"
  by (cases cs) auto

lemma utf8_length_ascii: "list_all (\<lambda>u. u < 128) c \<Longrightarrow> utf8_length c = length c"
  by (induction c) (auto simp: utf8_length_ascii_Cons)







text \<open>
  The other conditions of the round trip are needed too. A file that may not be read
  keeps its mode when \<^verbatim>\<open>write_file\<close> overwrites it, and \<^verbatim>\<open>read_file\<close> fails on
  it; a surrogate without its partner is written, and read back, as U+FFFD.
\<close>

lemma write_then_read_keeps_mode:
  "fst (execute (createWriteFileTool (fixed_parser (write_payload (js ''secret.txt'') (js ''hi'')))
          demo_host) (js ''payload'') demo_ctx locked_fs) =
     Inr (js ''Wrote 2 characters to secret.txt'') \<and>
   fst (execute (createReadFileTool demo_host) (js ''secret.txt'') demo_ctx
     (snd (execute (createWriteFileTool (fixed_parser (write_payload (js ''secret.txt'') (js ''hi'')))
          demo_host) (js ''payload'') demo_ctx locked_fs))) =
     Inl (Error (js ''EACCES: permission denied, open '' @ [39] @ js ''/repo/secret.txt'' @ [39]))"
proof -
  let ?fs' = "Dir [(js ''repo'', Dir [(js ''secret.txt'', File (js ''hi'') 2 False)] True)] True"
  have 1: "execute (createWriteFileTool (fixed_parser (write_payload (js ''secret.txt'') (js ''hi'')))
          demo_host) (js ''payload'') demo_ctx locked_fs =
       (Inr (js ''Wrote 2 characters to secret.txt''), ?fs')"
    by (simp add: fs_eval path_eval locked_fs_def)
  have 2: "execute (createReadFileTool demo_host) (js ''secret.txt'') demo_ctx ?fs' =
     (Inl (Error (js ''EACCES: permission denied, open '' @ [39] @ js ''/repo/secret.txt'' @ [39])), ?fs')"
    by (simp add: fs_eval path_eval fs_error_def errno_text_def)
  show ?thesis using 1 2 by simp
qed

lemma write_then_read_lone_surrogate:
  "fst (execute (createWriteFileTool (fixed_parser (write_payload (js ''a.txt'') [55357]))
          demo_host) (js ''payload'') demo_ctx demo_fs) =
     Inr (js ''Wrote 1 characters to a.txt'') \<and>
   fst (execute (createReadFileTool demo_host) (js ''a.txt'') demo_ctx
     (snd (execute (createWriteFileTool (fixed_parser (write_payload (js ''a.txt'') [55357]))
          demo_host) (js ''payload'') demo_ctx demo_fs))) = Inr [65533]"
proof -
  let ?fs' = "Dir [(js ''repo'',
            Dir [(js ''notes.txt'', File (js ''hello'') 5 True),
                 (js ''a.txt'', File [65533] 3 True)] True)] True"
  have 1: "execute (createWriteFileTool (fixed_parser (write_payload (js ''a.txt'') [55357]))
          demo_host) (js ''payload'') demo_ctx demo_fs =
       (Inr (js ''Wrote 1 characters to a.txt''), ?fs')"
    by (simp add: fs_eval path_eval)
  have 2: "execute (createReadFileTool demo_host) (js ''a.txt'') demo_ctx ?fs' = (Inr [65533], ?fs')"
    by (simp add: fs_eval path_eval)
  show ?thesis using 1 2 by simp
qed


lemma absolute_segments:
  assumes "\<forall>s\<in>set T. clean s"
  shows "resolve_segments pcwd [path_sep # join_with [path_sep] T] = T"
proof -
  have "resolve_loop (rev [path_sep # join_with [path_sep] T] @ [pcwd]) [] =
        (path_sep # join_with [path_sep] T) @ path_sep # []"
    by simp
  then have "resolve_segments pcwd [path_sep # join_with [path_sep] T] =
      normalize_segments [] (split_on path_sep (path_sep # join_with [path_sep] T) @ [[]])"
    unfolding resolve_segments_def by (simp only: split_on_append split_on_Nil)
  also have "\<dots> = normalize_segments T [[]]" by (rule split_root [OF assms])
  finally show ?thesis by simp
qed

lemma join_first_unit:
  assumes "T \<noteq> []" and "\<forall>s\<in>set T. clean s"
  shows "\<exists>x rest. join_with [path_sep] T = x # rest \<and> x \<noteq> path_sep"
proof -
  obtain s ss where T: "T = s # ss" using assms(1) by (cases T) auto
  then have "clean s" using assms(2) by simp
  then obtain x xs where s: "s = x # xs" and x: "x \<noteq> path_sep"
    by (cases s) (auto simp: clean_def)
  show ?thesis using T s x by (cases ss) auto
qed

lemma join_clean_inject:
  assumes "\<forall>s\<in>set T. clean s" and "\<forall>s\<in>set R. clean s"
    and "join_with [path_sep] T = join_with [path_sep] R"
  shows "T = R"
proof (cases "T = []")
  case True
  then have "join_with [path_sep] R = []" using assms(3) by simp
  then have "R = []" using join_first_unit [OF _ assms(2)] by (cases "R = []") auto
  then show ?thesis using True by simp
next
  case False
  then have "join_with [path_sep] R \<noteq> []" using join_first_unit [OF False assms(1)] assms(3) by auto
  then have Rn: "R \<noteq> []" by auto
  have a: "split_on path_sep (join_with [path_sep] T) = T"
    using False assms(1) by (intro split_join) (auto simp: clean_def)
  have b: "split_on path_sep (join_with [path_sep] R) = R"
    using Rn assms(2) by (intro split_join) (auto simp: clean_def)
  have "split_on path_sep (join_with [path_sep] T) = split_on path_sep (join_with [path_sep] R)"
    by (simp only: assms(3))
  then show ?thesis by (simp only: a b)
qed

lemma longest_common_prefix_of_prefix: "longest_common_prefix R (R @ M) = R"
  by (induction R) auto

lemma resolved_target_cases:
  assumes "resolveRepoPath h p ctx = Inr target"
  shows "(target = path_resolve (process_cwd h) [cwd ctx] \<and>
          pathFromRepoRoot h target ctx = js ''.'') \<or>
         (target = path_resolve (process_cwd h) [cwd ctx] @ [path_sep] @ pathFromRepoRoot h target ctx)"
proof -
  define R where "R = resolve_segments (process_cwd h) [cwd ctx]"
  define T where "T = resolve_segments (process_cwd h)
                        [path_resolve (process_cwd h) [cwd ctx], prefixed_candidate p]"
  define root where "root = path_resolve (process_cwd h) [cwd ctx]"
  have cR: "\<forall>s\<in>set R. clean s" unfolding R_def by (rule resolve_segments_clean)
  have cT: "\<forall>s\<in>set T. clean s" unfolding T_def by (rule resolve_segments_clean)
  have root: "root = path_sep # join_with [path_sep] R" by (simp add: root_def R_def path_resolve_def)
  have tgt: "target = path_sep # join_with [path_sep] T"
    using assms by (auto simp: resolveRepoPath_def Let_def T_def path_resolve_def split: if_splits)
  have acc: "target = root \<or> startsWith target (root @ [path_sep])"
    using assms by (auto simp: resolveRepoPath_def Let_def root_def split: if_splits)
  have rel: "pathFromRepoRoot h target ctx =
      (let r = join_with [path_sep]
                 (replicate (length R - length (longest_common_prefix R T)) (js ''..'') @
                  drop (length (longest_common_prefix R T)) T)
       in if r = [] then js ''.'' else r)"
    unfolding pathFromRepoRoot_def path_relative_def Let_def root_def [symmetric]
    unfolding root tgt absolute_segments [OF cR] absolute_segments [OF cT] by (rule refl)
  show ?thesis
  proof (cases "target = root")
    case True
    then have "T = R" using join_clean_inject [OF cT cR] root tgt by simp
    then have "pathFromRepoRoot h target ctx = js ''.''"
      using rel longest_common_prefix_of_prefix [of R "[]"] by simp
    then show ?thesis using True root_def by simp
  next
    case False
    then have sw: "startsWith target (root @ [path_sep])" using acc by simp
    have Rn: "R \<noteq> []"
    proof
      assume "R = []"
      then have "startsWith (path_sep # join_with [path_sep] T) [path_sep, path_sep]"
        using sw root tgt by simp
      then obtain rest where j: "join_with [path_sep] T = path_sep # rest"
        by (cases "join_with [path_sep] T") (auto simp: startsWith_def)
      then have "T \<noteq> []" by auto
      from join_first_unit [OF this cT] j show False by auto
    qed
    have "prefix R T" using within_iff [OF cR cT Rn] sw root tgt by simp
    then obtain M where M: "T = R @ M" by (auto simp: prefix_def)
    have Mn: "M \<noteq> []" using False M root tgt by auto
    have cM: "\<forall>s\<in>set M. s \<noteq> []" using cT M by (auto simp: clean_def)
    have jn: "join_with [path_sep] M \<noteq> []" using Mn cM by (rule join_with_nonempty)
    have "pathFromRepoRoot h target ctx = join_with [path_sep] M"
      using rel jn by (simp add: M longest_common_prefix_of_prefix)
    moreover have "target = root @ [path_sep] @ join_with [path_sep] M"
      using tgt root M Rn Mn by (simp add: join_with_append)
    ultimately show ?thesis using root_def by simp
  qed
qed

text \<open>
  C8, as the code has it. The confirmation of a successful \<^verbatim>\<open>write_file\<close> is
  \<^verbatim>\<open>Wrote N characters to R\<close>, where \<open>N\<close> is the number of UTF-16 code units of
  the contents (their number of bytes when the contents are ASCII) and \<open>R\<close> is the
  target relative to the root: \<^verbatim>\<open>.\<close> for the root itself, and otherwise the path
  that, put after the root and a separator, gives the target.
\<close>

theorem write_confirmation_message:
  assumes "parseWritePayload parse inputText = Inr \<lparr> wp_path = p, wp_contents = c \<rparr>"
    and "execute (createWriteFileTool parse h) inputText ctx fs = (Inr message, fs')"
  shows "\<exists>target rel.
           resolveRepoPath h p ctx = Inr target \<and>
           message = js ''Wrote '' @ show_nat (length c) @ js '' characters to '' @ rel \<and>
           ((target = path_resolve (process_cwd h) [cwd ctx] \<and> rel = js ''.'') \<or>
            target = path_resolve (process_cwd h) [cwd ctx] @ [path_sep] @ rel) \<and>
           (list_all (\<lambda>u. u < 128) c \<longrightarrow> length c = utf8_length c)"
proof -
  from assms obtain target fs1 where
    t: "resolveRepoPath h p ctx = Inr target" and
    m: "message = js ''Wrote '' @ show_nat (length c) @ js '' characters to '' @
               pathFromRepoRoot h target ctx"
    by (rule write_file_success)
  from resolved_target_cases [OF t] t m utf8_length_ascii [of c]
  show ?thesis by auto
qed

theorem write_confirmation_message_witness:
  "parseWritePayload (fixed_parser (write_payload (js ''src/a.txt'') (js ''hi''))) (js ''payload'') =
     Inr \<lparr> wp_path = js ''src/a.txt'', wp_contents = js ''hi'' \<rparr> \<and>
   fst (execute (createWriteFileTool (fixed_parser (write_payload (js ''src/a.txt'') (js ''hi''))) demo_host)
       (js ''payload'') demo_ctx demo_fs) = Inr (js ''Wrote 2 characters to src/a.txt'') \<and>
   resolveRepoPath demo_host (js ''src/a.txt'') demo_ctx = Inr (js ''/repo/src/a.txt'') \<and>
   path_resolve (process_cwd demo_host) [cwd demo_ctx] = js ''/repo'' \<and>
   (\<exists>rel. js ''Wrote 2 characters to src/a.txt'' =
            js ''Wrote '' @ show_nat (length (js ''hi'')) @ js '' characters to '' @ rel \<and>
          js ''/repo/src/a.txt'' = js ''/repo'' @ [path_sep] @ rel)"
proof -
  let ?parse = "fixed_parser (write_payload (js ''src/a.txt'') (js ''hi''))"
  let ?fs' = "Dir [(js ''repo'',
            Dir [(js ''notes.txt'', File (js ''hello'') 5 True),
                 (js ''src'', Dir [(js ''a.txt'', File (js ''hi'') 2 True)] True)] True)] True"
  have 1: "parseWritePayload ?parse (js ''payload'') =
     Inr \<lparr> wp_path = js ''src/a.txt'', wp_contents = js ''hi'' \<rparr>"
    by (simp add: fs_eval js_def)
  have 2: "execute (createWriteFileTool ?parse demo_host) (js ''payload'') demo_ctx demo_fs =
     (Inr (js ''Wrote 2 characters to src/a.txt''), ?fs')"
    by (simp add: fs_eval path_eval)
  have 3: "resolveRepoPath demo_host (js ''src/a.txt'') demo_ctx = Inr (js ''/repo/src/a.txt'')"
    by (simp add: path_eval)
  have 4: "path_resolve (process_cwd demo_host) [cwd demo_ctx] = js ''/repo''"
    by (simp add: path_eval)
  have 5: "js ''/repo/src/a.txt'' \<noteq> js ''/repo''" by (simp add: js_def)
  from write_confirmation_message [OF 1 2] obtain target rel where
    "resolveRepoPath demo_host (js ''src/a.txt'') demo_ctx = Inr target"
    "js ''Wrote 2 characters to src/a.txt'' =
       js ''Wrote '' @ show_nat (length (js ''hi'')) @ js '' characters to '' @ rel"
    "(target = path_resolve (process_cwd demo_host) [cwd demo_ctx] \<and> rel = js ''.'') \<or>
      target = path_resolve (process_cwd demo_host) [cwd demo_ctx] @ [path_sep] @ rel"
    by blast
  then have "js ''Wrote 2 characters to src/a.txt'' =
            js ''Wrote '' @ show_nat (length (js ''hi'')) @ js '' characters to '' @ rel \<and>
          js ''/repo/src/a.txt'' = js ''/repo'' @ [path_sep] @ rel"
    using 3 4 5 by auto
  then have e: "\<exists>rel. js ''Wrote 2 characters to src/a.txt'' =
            js ''Wrote '' @ show_nat (length (js ''hi'')) @ js '' characters to '' @ rel \<and>
          js ''/repo/src/a.txt'' = js ''/repo'' @ [path_sep] @ rel"
    by (rule exI)
  have f: "fst (execute (createWriteFileTool ?parse demo_host) (js ''payload'') demo_ctx demo_fs) =
      Inr (js ''Wrote 2 characters to src/a.txt'')"
    by (simp only: 2 fst_conv)
  show ?thesis by (intro conjI 1 f 3 4 e)
qed

text \<open>
  C8 as the specification states it fails: the one unit U+00E9 is written as two bytes,
  and the confirmation says 1; the number 2 is nowhere in it.
\<close>

theorem write_confirmation_bytes_counterexample:
  "fst (execute (createWriteFileTool (fixed_parser (write_payload (js ''cafe.txt'') [233])) demo_host)
       (js ''payload'') demo_ctx demo_fs) = Inr (js ''Wrote 1 characters to cafe.txt'') \<and>
   utf8_length [233] = 2 \<and>
   \<not> js_includes (js ''Wrote 1 characters to cafe.txt'') (show_nat (utf8_length [233]))"
  by (simp add: fs_eval path_eval)

section \<open>The file search\<close>














section \<open>The sandbox never exits\<close>

text \<open>
  C2. Whatever the exit code, given or left out, \<^verbatim>\<open>exit\<close> of the sandbox's process
  object throws an error whose message says that \<^verbatim>\<open>process.exit\<close> is not allowed,
  and leaves the host as it was: not terminated by the call.
\<close>

theorem sandbox_exit_not_allowed:
  "sp_exit (createSandboxProcess h0 ctx) c h =
     (Inl (Error (js ''process.exit('' @ show_int (case c of None \<Rightarrow> 0 | Some k \<Rightarrow> k) @
                  js '') is not allowed inside the node tool.'')), h) \<and>
   exited (snd (sp_exit (createSandboxProcess h0 ctx) c h)) = exited h"
  by (simp add: createSandboxProcess_def)

end
